theory Spec2Isabelle
  imports Main "HOL-Library.Word"
begin

unbundle bit_operations_syntax

section \<open>Data model\<close>

text \<open>
  A \<open>Buffer\<close> of the proof modules always holds 32 bytes (a leaf image, a node hash, a
  decommitment or an integer encoded big-endian on 32 bytes); Solidity's \<open>bytes32\<close> and
  \<open>uint256\<close> are the same 256 bits. JavaScript \<open>number\<close>s that count or index are
  \<open>nat\<close>; the 32-bit operators \<open>>>> 1\<close> and \<open><< 1\<close> are halving and doubling on the sizes
  the arrays can have. \<open>BigInt\<close> is \<open>nat\<close>. An array cell that may hold \<open>undefined\<close>
  is an \<open>option\<close>.
\<close>

type_synonym buffer = "256 word"

text \<open>
  The errors of the modules. The TypeScript throws plain \<open>Error\<close> objects told apart by
  their message; \<open>TypeError\<close> is what the runtime raises when \<open>undefined\<close> is used where a
  \<open>Buffer\<close> is needed. \<open>MalformedProof\<close> is the error kind of the design (section 7); no
  function of the source raises it.
\<close>

datatype error =
    UnsortedIndices     \<comment> \<open>'Indices must be in ascending order.'\<close>
  | ProofTooLarge       \<comment> \<open>'Proof too large for bit flags.'\<close>
  | CannotInferIndices  \<comment> \<open>'Cannot infer indices without orders in proof.'\<close>
  | MalformedProof
  | TypeError

record treeOptions =
  sortedHash :: bool
  compact :: bool
  hashFunction :: "buffer \<Rightarrow> buffer \<Rightarrow> buffer"

record counted =
  elementCount :: nat

record appendProof = counted +
  compactProof :: "buffer list"
  decommitments :: "buffer list"

record multiProof = appendProof +
  flags :: "bool list"
  skips :: "bool list"
  orders :: "bool list option"

record rootResult = counted +
  root :: "buffer option"

record newRootResult = rootResult +
  newRoot :: "buffer option"

text \<open>Reading a JavaScript array: out of range is \<open>undefined\<close>.\<close>

definition js_get :: "'a list \<Rightarrow> nat \<Rightarrow> 'a option" where
  "js_get xs i = (if i < length xs then Some (xs ! i) else None)"

definition js_nth :: "'a option list \<Rightarrow> nat \<Rightarrow> 'a option" where
  "js_nth xs i = (if i < length xs then xs ! i else None)"

text \<open>The truth value of \<open>xs[i]\<close> for an array of \<open>1 | 0\<close>: \<open>undefined\<close> is falsy.\<close>

definition js_bool :: "bool list \<Rightarrow> nat \<Rightarrow> bool" where
  "js_bool xs i = (i < length xs \<and> xs ! i)"

section \<open>Hash primitive and tree builder\<close>

text \<open>
  \<open>hash_node\<close> (keccak256 of the two operands, contract lines 17-24) is opaque: every
  definition that needs it takes it as the parameter \<open>H\<close>. \<open>hash_pair\<close> is the sorted
  variant (contract lines 13-15).
\<close>

definition hash_pair :: "(buffer \<Rightarrow> buffer \<Rightarrow> buffer) \<Rightarrow> buffer \<Rightarrow> buffer \<Rightarrow> buffer" where
  "hash_pair H a b = (if a < b then H a b else H b a)"

text \<open>
  Modelled from the spec: the options object (module \<open>common\<close> is not among the sources).
  Section 4.1: the ordered variant hashes left then right, the sorted variant hashes the
  smaller operand first.
\<close>

definition getOptions :: "(buffer \<Rightarrow> buffer \<Rightarrow> buffer) \<Rightarrow> bool \<Rightarrow> bool \<Rightarrow> treeOptions" where
  "getOptions H srt cmp =
     \<lparr>sortedHash = srt, compact = cmp, hashFunction = (if srt then hash_pair H else H)\<rparr>"

text \<open>
  Modelled from the spec: the hash primitive is defined on two 32-byte inputs. Applied to
  \<open>undefined\<close> it raises (the concatenation of its operands refuses a non-Buffer).
\<close>

definition applyHash :: "treeOptions \<Rightarrow> buffer option \<Rightarrow> buffer option \<Rightarrow> error + buffer" where
  "applyHash options a b =
     (case a of None \<Rightarrow> Inl TypeError
      | Some x \<Rightarrow> (case b of None \<Rightarrow> Inl TypeError | Some y \<Rightarrow> Inr (hashFunction options x y)))"

text \<open>Modelled from the spec: the leaf image \<open>H(0^32, leaf)\<close> (section 3).\<close>

definition leafImage :: "(buffer \<Rightarrow> buffer \<Rightarrow> buffer) \<Rightarrow> buffer \<Rightarrow> buffer" where
  "leafImage H e = H 0 e"

text \<open>
  Modelled from the spec: the tree builder (section 4.2; the module that builds trees is
  not among the sources). \<open>getDepth n\<close> is the least \<open>d\<close> with \<open>n \<le> 2 ^ d\<close>, so that
  \<open>leafCountOf n\<close> is the smallest power of two that is at least \<open>max n 1\<close>.
\<close>

fun getDepth :: "nat \<Rightarrow> nat" where
  "getDepth n = (if n \<le> 1 then 0 else Suc (getDepth ((n + 1) div 2)))"

declare getDepth.simps [simp del]

definition leafCountOf :: "nat \<Rightarrow> nat" where
  "leafCountOf n = 2 ^ getDepth n"

text \<open>Step 2 of section 4.2 for one node: both children, only the left one, or none.\<close>

definition parentNode :: "(buffer \<Rightarrow> buffer \<Rightarrow> buffer) \<Rightarrow> buffer option \<Rightarrow> buffer option \<Rightarrow> buffer option" where
  "parentNode hf l r =
     (case l of None \<Rightarrow> None
      | Some a \<Rightarrow> (case r of None \<Rightarrow> Some a | Some b \<Rightarrow> Some (hf a b)))"

text \<open>Step 2: \<open>for i from L - 1 down to 1\<close>.\<close>

fun fillNodes :: "(buffer \<Rightarrow> buffer \<Rightarrow> buffer) \<Rightarrow> nat \<Rightarrow> buffer option list \<Rightarrow> buffer option list" where
  "fillNodes hf 0 node = node"
| "fillNodes hf (Suc n) node =
     fillNodes hf n (node[Suc n := parentNode hf (node ! (2 * Suc n)) (node ! (2 * Suc n + 1))])"

text \<open>
  The node array of length \<open>2 * L\<close> over the leaf images \<open>leafs\<close>: slot \<open>L + i\<close> holds leaf
  image \<open>i\<close>, the slots beyond the last leaf are absent, slot 0 is unused.
\<close>

definition buildTree :: "buffer list \<Rightarrow> treeOptions \<Rightarrow> buffer option list" where
  "buildTree leafs options =
     (let L = leafCountOf (length leafs)
      in fillNodes (hashFunction options) (L - 1)
           (replicate L None @ map Some leafs @ replicate (L - length leafs) None))"

definition treeOf :: "(buffer \<Rightarrow> buffer \<Rightarrow> buffer) \<Rightarrow> bool \<Rightarrow> buffer list \<Rightarrow> buffer option list" where
  "treeOf H srt elements = buildTree (map (leafImage H) elements) (getOptions H srt False)"

section \<open>Multi-proof generation\<close>

text \<open>
  The arrays \<open>known\<close> and \<open>relevant\<close> of \<open>generateBooleans\<close> are filled with 0, written at
  single indices and only tested for truth: a function from the index to the truth value
  of the cell (a cell that was never written, in or beyond the array, is falsy). The
  decommitments collected by the loop may hold \<open>undefined\<close> (a missing right sibling); they
  are filtered at the end.
\<close>

record genState =
  known :: "nat \<Rightarrow> bool"
  relevant :: "nat \<Rightarrow> bool"
  decs :: "buffer option list"
  flagsAcc :: "bool list"
  ordersAcc :: "bool list"
  skipsAcc :: "bool list"

text \<open>Lines 171-179: the loop over the positions \<open>i\<close> of \<open>indices\<close>.\<close>

fun markLoop :: "nat list \<Rightarrow> nat \<Rightarrow> nat list \<Rightarrow> genState \<Rightarrow> error + genState" where
  "markLoop indices leafCount [] s = Inr s"
| "markLoop indices leafCount (i # rest) s =
     (if i \<noteq> 0 \<and> indices ! (i - 1) > indices ! i then Inl UnsortedIndices
      else markLoop indices leafCount rest
             (s\<lparr>known := (known s)(leafCount + indices ! i := True),
                relevant := (relevant s)((leafCount + indices ! i) div 2 := True)\<rparr>))"

text \<open>Lines 182-201: the body of the loop over the internal nodes.\<close>

definition genStep :: "buffer option list \<Rightarrow> nat \<Rightarrow> genState \<Rightarrow> genState" where
  "genStep tree i s =
     (let leftChildIndex = 2 * i;
          left = known s leftChildIndex;
          right = known s (leftChildIndex + 1);
          sibling = js_nth tree (leftChildIndex + (if left then 1 else 0));
          s1 = (if left \<noteq> right then s\<lparr>decs := decs s @ [sibling]\<rparr> else s);
          s2 = (if relevant s1 i
                then s1\<lparr>flagsAcc := flagsAcc s1 @ [left = right],
                        skipsAcc := skipsAcc s1 @ [sibling = None],
                        ordersAcc := ordersAcc s1 @ [left],
                        relevant := (relevant s1)(i div 2 := True)\<rparr>
                else s1)
      in s2\<lparr>known := (known s2)(i := left \<or> right)\<rparr>)"

text \<open>Line 181: \<open>for (let i = leafCount - 1; i > 0; i--)\<close>; \<open>genLoop tree n\<close> runs \<open>i = n, ..., 1\<close>.\<close>

fun genLoop :: "buffer option list \<Rightarrow> nat \<Rightarrow> genState \<Rightarrow> genState" where
  "genLoop tree 0 s = s"
| "genLoop tree (Suc n) s = genLoop tree n (genStep tree (Suc n) s)"

definition initGen :: genState where
  "initGen = \<lparr>known = (\<lambda>_. False), relevant = (\<lambda>_. False), decs = [],
              flagsAcc = [], ordersAcc = [], skipsAcc = []\<rparr>"

definition generateBooleans :: "buffer option list \<Rightarrow> nat \<Rightarrow> nat list \<Rightarrow> treeOptions \<Rightarrow> error + multiProof" where
  "generateBooleans tree elemCount indices options =
     (let leafCount = length tree div 2
      in case markLoop indices leafCount [0..<length indices] initGen of
           Inl e \<Rightarrow> Inl e
         | Inr s0 \<Rightarrow>
             (let s = genLoop tree (leafCount - 1) s0
              in Inr \<lparr>elementCount = elemCount,
                      compactProof = [],
                      decommitments = map the (filter (\<lambda>d. d \<noteq> None) (decs s)),
                      flags = flagsAcc s,
                      skips = skipsAcc s,
                      orders = (if \<not> sortedHash options then Some (ordersAcc s) else None)\<rparr>))"

text \<open>
  Modelled from the spec: the conversions of module \<open>utils\<close> (not among the sources). A
  bit stream has bit \<open>i\<close> set for step \<open>i\<close>; an integer is written big-endian on 32 bytes.
\<close>

fun toBigIntBoolSet :: "bool list \<Rightarrow> nat" where
  "toBigIntBoolSet [] = 0"
| "toBigIntBoolSet (b # bs) = (if b then 1 else 0) + 2 * toBigIntBoolSet bs"

definition bigIntTo32ByteBuffer :: "nat \<Rightarrow> buffer" where
  "bigIntTo32ByteBuffer n = word_of_nat n"

definition bufferToBigInt :: "buffer \<Rightarrow> nat" where
  "bufferToBigInt b = unat b"

definition to32ByteBuffer :: "nat \<Rightarrow> buffer" where
  "to32ByteBuffer n = word_of_nat n"

definition from32ByteBuffer :: "buffer \<Rightarrow> nat" where
  "from32ByteBuffer b = unat b"

definition to32ByteBoolBuffer :: "bool list \<Rightarrow> buffer" where
  "to32ByteBoolBuffer bs = bigIntTo32ByteBuffer (toBigIntBoolSet bs)"

text \<open>Lines 215-235. \<open>BigInt(1) << BigInt(n)\<close> is \<open>2 ^ n\<close>; \<open>|\<close> is \<open>OR\<close>.\<close>

definition generateBits :: "buffer option list \<Rightarrow> nat \<Rightarrow> nat list \<Rightarrow> treeOptions \<Rightarrow> error + multiProof" where
  "generateBits tree elemCount indices options =
     (case generateBooleans tree elemCount indices options of
        Inl e \<Rightarrow> Inl e
      | Inr p \<Rightarrow>
          if length (flags p) > 255 then Inl ProofTooLarge
          else
            (let stopMask = (2::nat) ^ length (flags p);
                 proof' = (case orders p of
                             Some os \<Rightarrow> [to32ByteBoolBuffer os] @ decommitments p
                           | None \<Rightarrow> decommitments p);
                 flagsAsBits = bigIntTo32ByteBuffer (toBigIntBoolSet (flags p) OR stopMask);
                 skipsAsBits = bigIntTo32ByteBuffer (toBigIntBoolSet (skips p) OR stopMask)
             in Inr \<lparr>elementCount = elementCount p,
                     compactProof = [to32ByteBuffer (elementCount p), flagsAsBits, skipsAsBits] @ proof',
                     decommitments = [],
                     flags = [],
                     skips = [],
                     orders = None\<rparr>))"

definition generate :: "buffer option list \<Rightarrow> nat \<Rightarrow> nat list \<Rightarrow> treeOptions \<Rightarrow> error + multiProof" where
  "generate tree elemCount indices options =
     (if compact options then generateBits tree elemCount indices options
      else generateBooleans tree elemCount indices options)"

text \<open>Modelled from the spec: the root binds the element count, \<open>H(N, tree[1])\<close>, and is zero
  for the empty tree (section 4.2).\<close>

definition treeRoot :: "(buffer \<Rightarrow> buffer \<Rightarrow> buffer) \<Rightarrow> bool \<Rightarrow> buffer list \<Rightarrow> buffer" where
  "treeRoot H srt elements =
     (if length elements > 0
      then H (to32ByteBuffer (length elements)) (the (treeOf H srt elements ! 1))
      else 0)"

section \<open>Multi-proof verification\<close>

text \<open>
  The state of the loops of \<open>getRootBooleans\<close> and \<open>getRootBits\<close>. With at least one leaf
  the cursors stay below \<open>leafCount\<close> and every cell of \<open>hashes\<close> holds a Buffer. With no
  leaf the TypeScript cursors become \<open>NaN\<close> and every read of \<open>hashes\<close> is \<open>undefined\<close>:
  in the model \<open>hashes\<close> stays empty, and every read of it is \<open>None\<close>.
\<close>

record rootState =
  hashes :: "buffer list"
  readIndex :: nat
  writeIndex :: nat
  decommitmentIndex :: nat

text \<open>
  Lines 258-272, and the same statements on lines 300-324: one round of the automaton, with
  the three bits of the round read by the caller.
\<close>

definition hashStep :: "treeOptions \<Rightarrow> nat \<Rightarrow> buffer list \<Rightarrow> bool \<Rightarrow> bool \<Rightarrow> bool
    \<Rightarrow> rootState \<Rightarrow> error + rootState" where
  "hashStep options leafCount decommitments' flag skip order st =
     (if skip
      then Inr (st\<lparr>hashes := (hashes st)[writeIndex st := hashes st ! readIndex st],
                   readIndex := Suc (readIndex st) mod leafCount,
                   writeIndex := Suc (writeIndex st) mod leafCount\<rparr>)
      else
        (let right = (if flag then js_get (hashes st) (readIndex st)
                      else js_get decommitments' (decommitmentIndex st));
             r1 = (if flag then Suc (readIndex st) else readIndex st) mod leafCount;
             d1 = (if flag then decommitmentIndex st else Suc (decommitmentIndex st));
             left = js_get (hashes st) r1
         in case (if order then applyHash options left right else applyHash options right left) of
              Inl e \<Rightarrow> Inl e
            | Inr h \<Rightarrow>
                Inr (st\<lparr>hashes := (hashes st)[writeIndex st := h],
                        readIndex := Suc r1 mod leafCount,
                        writeIndex := Suc (writeIndex st) mod leafCount,
                        decommitmentIndex := d1\<rparr>)))"

text \<open>Line 257: \<open>for (let i = 0; i < hashCount; i++)\<close>, over the list of the values of \<open>i\<close>.\<close>

fun getRootBooleansLoop :: "treeOptions \<Rightarrow> nat \<Rightarrow> bool list \<Rightarrow> bool list \<Rightarrow> bool list
    \<Rightarrow> buffer list \<Rightarrow> nat list \<Rightarrow> rootState \<Rightarrow> error + rootState" where
  "getRootBooleansLoop options leafCount flags' skips' orders' decommitments' [] st = Inr st"
| "getRootBooleansLoop options leafCount flags' skips' orders' decommitments' (i # rest) st =
     (case hashStep options leafCount decommitments' (js_bool flags' i) (js_bool skips' i)
             (js_bool orders' i) st of
        Inl e \<Rightarrow> Inl e
      | Inr st' \<Rightarrow> getRootBooleansLoop options leafCount flags' skips' orders' decommitments' rest st')"

text \<open>
  Line 275, and \<open>hashes[rootIndex]\<close>: with no leaf the index is -1 or \<open>NaN\<close> and the cell
  is \<open>undefined\<close>.
\<close>

definition rootCell :: "nat \<Rightarrow> rootState \<Rightarrow> buffer option" where
  "rootCell leafCount st =
     (let w = (if writeIndex st = 0 then leafCount else writeIndex st)
      in if w = 0 then None else js_get (hashes st) (w - 1))"

definition initRoot :: "buffer list \<Rightarrow> rootState" where
  "initRoot leafs = \<lparr>hashes = rev leafs, readIndex = 0, writeIndex = 0, decommitmentIndex = 0\<rparr>"

text \<open>Lines 248-278. \<open>Buffer.from(undefined)\<close> raises a TypeError.\<close>

definition getRootBooleans :: "buffer list \<Rightarrow> nat \<Rightarrow> bool list \<Rightarrow> bool list \<Rightarrow> bool list
    \<Rightarrow> buffer list \<Rightarrow> treeOptions \<Rightarrow> error + rootResult" where
  "getRootBooleans leafs elemCount flags' skips' orders' decommitments' options =
     (let hashCount = length flags';
          leafCount = length leafs
      in case getRootBooleansLoop options leafCount flags' skips' orders' decommitments'
                [0..<hashCount] (initRoot leafs) of
           Inl e \<Rightarrow> Inl e
         | Inr st \<Rightarrow>
             (case rootCell leafCount st of
                None \<Rightarrow> Inl TypeError
              | Some h \<Rightarrow> Inr \<lparr>elementCount = elemCount, root = Some h\<rparr>))"

text \<open>
  Lines 297-325: \<open>while (true)\<close>. The loop may run forever, so its result is an option;
  \<open>bitCheck <<= BigInt(1)\<close> doubles. \<open>orders\<close> is absent for the sorted hash.
\<close>

partial_function (option) getRootBitsLoop :: "treeOptions \<Rightarrow> nat \<Rightarrow> nat \<Rightarrow> nat \<Rightarrow> nat option
    \<Rightarrow> buffer list \<Rightarrow> nat \<Rightarrow> rootState \<Rightarrow> (error + rootState) option" where
  "getRootBitsLoop options leafCount flags' skips' orders' decommitments' bitCheck st =
     (if skips' AND bitCheck \<noteq> 0 \<and> flags' AND bitCheck \<noteq> 0 then Some (Inr st)
      else
        (case hashStep options leafCount decommitments' (flags' AND bitCheck \<noteq> 0)
                (skips' AND bitCheck \<noteq> 0)
                (case orders' of None \<Rightarrow> False | Some os \<Rightarrow> os AND bitCheck \<noteq> 0) st of
           Inl e \<Rightarrow> Some (Inl e)
         | Inr st' \<Rightarrow>
             getRootBitsLoop options leafCount flags' skips' orders' decommitments'
               (2 * bitCheck) st'))"

declare getRootBitsLoop.simps [code]

text \<open>
  Lines 283-326. Reading an integer from a missing word of the compact proof raises a
  TypeError. The root is returned as the cell holds it, possibly \<open>undefined\<close>.
\<close>

definition getRootBits :: "buffer list \<Rightarrow> buffer list \<Rightarrow> treeOptions \<Rightarrow> (error + rootResult) option" where
  "getRootBits leafs compactProof' options =
     (if length compactProof' < (if sortedHash options then 3 else 4) then Some (Inl TypeError)
      else
        (let elemCount = from32ByteBuffer (compactProof' ! 0);
             flags' = bufferToBigInt (compactProof' ! 1);
             skips' = bufferToBigInt (compactProof' ! 2);
             orders' = (if sortedHash options then None else Some (bufferToBigInt (compactProof' ! 3)));
             decommitments' = drop (if sortedHash options then 3 else 4) compactProof';
             leafCount = length leafs
         in case getRootBitsLoop options leafCount flags' skips' orders' decommitments' 1
                   (initRoot leafs) of
              None \<Rightarrow> None
            | Some (Inl e) \<Rightarrow> Some (Inl e)
            | Some (Inr st) \<Rightarrow> Some (Inr \<lparr>elementCount = elemCount, root = rootCell leafCount st\<rparr>)))"

text \<open>Parameters with a default value take it when the argument is \<open>undefined\<close>.\<close>

definition orDefault :: "'a list option \<Rightarrow> 'a list" where
  "orDefault xs = (case xs of None \<Rightarrow> [] | Some ys \<Rightarrow> ys)"

text \<open>Lines 328-332.\<close>

definition getRoot :: "buffer list \<Rightarrow> buffer list \<Rightarrow> nat \<Rightarrow> bool list \<Rightarrow> bool list \<Rightarrow> bool list option
    \<Rightarrow> buffer list \<Rightarrow> treeOptions \<Rightarrow> (error + rootResult) option" where
  "getRoot leafs compactProof' elemCount flags' skips' orders' decommitments' options =
     (if length compactProof' > 0 then getRootBits leafs compactProof' options
      else Some (getRootBooleans leafs elemCount flags' skips' (orDefault orders') decommitments' options))"

subsection \<open>Update\<close>

record newRootState = rootState +
  updateHashes :: "buffer list"

text \<open>Lines 348-367: one round on the two buffers.\<close>

definition newHashStep :: "treeOptions \<Rightarrow> nat \<Rightarrow> buffer list \<Rightarrow> bool \<Rightarrow> bool \<Rightarrow> bool
    \<Rightarrow> newRootState \<Rightarrow> error + newRootState" where
  "newHashStep options leafCount decommitments' flag skip order st =
     (if skip
      then Inr (st\<lparr>hashes := (hashes st)[writeIndex st := hashes st ! readIndex st],
                   updateHashes := (updateHashes st)[writeIndex st := updateHashes st ! readIndex st],
                   readIndex := Suc (readIndex st) mod leafCount,
                   writeIndex := Suc (writeIndex st) mod leafCount\<rparr>)
      else
        (let right = (if flag then js_get (hashes st) (readIndex st)
                      else js_get decommitments' (decommitmentIndex st));
             newRight = (if flag then js_get (updateHashes st) (readIndex st)
                         else js_get decommitments' (decommitmentIndex st));
             r1 = (if flag then Suc (readIndex st) else readIndex st) mod leafCount;
             d1 = (if flag then decommitmentIndex st else Suc (decommitmentIndex st));
             left = js_get (hashes st) r1;
             newLeft = js_get (updateHashes st) r1
         in case (if order then applyHash options left right else applyHash options right left) of
              Inl e \<Rightarrow> Inl e
            | Inr h \<Rightarrow>
                (case (if order then applyHash options newLeft newRight
                       else applyHash options newRight newLeft) of
                   Inl e \<Rightarrow> Inl e
                 | Inr h' \<Rightarrow>
                     Inr (st\<lparr>hashes := (hashes st)[writeIndex st := h],
                             updateHashes := (updateHashes st)[writeIndex st := h'],
                             readIndex := Suc r1 mod leafCount,
                             writeIndex := Suc (writeIndex st) mod leafCount,
                             decommitmentIndex := d1\<rparr>))))"

fun getNewRootBooleansLoop :: "treeOptions \<Rightarrow> nat \<Rightarrow> bool list \<Rightarrow> bool list \<Rightarrow> bool list
    \<Rightarrow> buffer list \<Rightarrow> nat list \<Rightarrow> newRootState \<Rightarrow> error + newRootState" where
  "getNewRootBooleansLoop options leafCount flags' skips' orders' decommitments' [] st = Inr st"
| "getNewRootBooleansLoop options leafCount flags' skips' orders' decommitments' (i # rest) st =
     (case newHashStep options leafCount decommitments' (js_bool flags' i) (js_bool skips' i)
             (js_bool orders' i) st of
        Inl e \<Rightarrow> Inl e
      | Inr st' \<Rightarrow> getNewRootBooleansLoop options leafCount flags' skips' orders' decommitments' rest st')"

definition newRootCell :: "nat \<Rightarrow> newRootState \<Rightarrow> buffer option" where
  "newRootCell leafCount st =
     (let w = (if writeIndex st = 0 then leafCount else writeIndex st)
      in if w = 0 then None else js_get (updateHashes st) (w - 1))"

text \<open>Lines 337-377.\<close>

definition getNewRootBooleans :: "buffer list \<Rightarrow> buffer list \<Rightarrow> nat \<Rightarrow> bool list \<Rightarrow> bool list
    \<Rightarrow> bool list \<Rightarrow> buffer list \<Rightarrow> treeOptions \<Rightarrow> error + newRootResult" where
  "getNewRootBooleans leafs updateLeafs elemCount flags' skips' orders' decommitments' options =
     (let hashCount = length flags';
          leafCount = length leafs;
          st0 = \<lparr>hashes = rev leafs, readIndex = 0, writeIndex = 0, decommitmentIndex = 0,
                 updateHashes = rev updateLeafs\<rparr>
      in case getNewRootBooleansLoop options leafCount flags' skips' orders' decommitments'
                [0..<hashCount] st0 of
           Inl e \<Rightarrow> Inl e
         | Inr st \<Rightarrow>
             (case rootCell leafCount (rootState.truncate st) of
                None \<Rightarrow> Inl TypeError
              | Some h \<Rightarrow>
                  (case newRootCell leafCount st of
                     None \<Rightarrow> Inl TypeError
                   | Some h' \<Rightarrow> Inr \<lparr>elementCount = elemCount, root = Some h, newRoot = Some h'\<rparr>)))"

text \<open>Lines 397-434: \<open>while (true)\<close> on the two buffers.\<close>

partial_function (option) getNewRootBitsLoop :: "treeOptions \<Rightarrow> nat \<Rightarrow> nat \<Rightarrow> nat \<Rightarrow> nat option
    \<Rightarrow> buffer list \<Rightarrow> nat \<Rightarrow> newRootState \<Rightarrow> (error + newRootState) option" where
  "getNewRootBitsLoop options leafCount flags' skips' orders' decommitments' bitCheck st =
     (if skips' AND bitCheck \<noteq> 0 \<and> flags' AND bitCheck \<noteq> 0 then Some (Inr st)
      else
        (case newHashStep options leafCount decommitments' (flags' AND bitCheck \<noteq> 0)
                (skips' AND bitCheck \<noteq> 0)
                (case orders' of None \<Rightarrow> False | Some os \<Rightarrow> os AND bitCheck \<noteq> 0) st of
           Inl e \<Rightarrow> Some (Inl e)
         | Inr st' \<Rightarrow>
             getNewRootBitsLoop options leafCount flags' skips' orders' decommitments'
               (2 * bitCheck) st'))"

declare getNewRootBitsLoop.simps [code]

text \<open>Lines 382-435. Both roots go through \<open>Buffer.from\<close>.\<close>

definition getNewRootBits :: "buffer list \<Rightarrow> buffer list \<Rightarrow> buffer list \<Rightarrow> treeOptions
    \<Rightarrow> (error + newRootResult) option" where
  "getNewRootBits leafs updateLeafs compactProof' options =
     (if length compactProof' < (if sortedHash options then 3 else 4) then Some (Inl TypeError)
      else
        (let elemCount = from32ByteBuffer (compactProof' ! 0);
             flags' = bufferToBigInt (compactProof' ! 1);
             skips' = bufferToBigInt (compactProof' ! 2);
             orders' = (if sortedHash options then None else Some (bufferToBigInt (compactProof' ! 3)));
             decommitments' = drop (if sortedHash options then 3 else 4) compactProof';
             leafCount = length leafs;
             st0 = \<lparr>hashes = rev leafs, readIndex = 0, writeIndex = 0, decommitmentIndex = 0,
                    updateHashes = rev updateLeafs\<rparr>
         in case getNewRootBitsLoop options leafCount flags' skips' orders' decommitments' 1 st0 of
              None \<Rightarrow> None
            | Some (Inl e) \<Rightarrow> Some (Inl e)
            | Some (Inr st) \<Rightarrow>
                (case rootCell leafCount (rootState.truncate st) of
                   None \<Rightarrow> Some (Inl TypeError)
                 | Some h \<Rightarrow>
                     (case newRootCell leafCount st of
                        None \<Rightarrow> Some (Inl TypeError)
                      | Some h' \<Rightarrow>
                          Some (Inr \<lparr>elementCount = elemCount, root = Some h, newRoot = Some h'\<rparr>)))))"

text \<open>Lines 437-441.\<close>

definition getNewRoot :: "buffer list \<Rightarrow> buffer list \<Rightarrow> buffer list \<Rightarrow> nat \<Rightarrow> bool list \<Rightarrow> bool list
    \<Rightarrow> bool list option \<Rightarrow> buffer list \<Rightarrow> treeOptions \<Rightarrow> (error + newRootResult) option" where
  "getNewRoot leafs updatedLeafs compactProof' elemCount flags' skips' orders' decommitments' options =
     (if length compactProof' > 0 then getNewRootBits leafs updatedLeafs compactProof' options
      else Some (getNewRootBooleans leafs updatedLeafs elemCount flags' skips' (orDefault orders')
                   decommitments' options))"

section \<open>Index inference\<close>

text \<open>
  The three arrays of \<open>getIndicesWithBooleans\<close> and the cursor. \<open>indices[k] |= 1 << b\<close> is
  a 32-bit operation: the shift count is taken modulo 32 and the result is a signed 32-bit
  integer.
\<close>

record indexState =
  indicesArr :: "int list"
  groupedWithNext :: "bool list"
  bitsPushed :: "nat list"
  leafIndex :: nat

definition orBit :: "int \<Rightarrow> nat \<Rightarrow> int" where
  "orBit x b = sint ((word_of_int x :: 32 word) OR push_bit (b mod 32) 1)"

text \<open>The first two statements of each inner loop, at cell \<open>k\<close>.\<close>

definition pushBit :: "bool \<Rightarrow> nat \<Rightarrow> indexState \<Rightarrow> indexState" where
  "pushBit setBit k st =
     st\<lparr>indicesArr := (if setBit then (indicesArr st)[k := orBit (indicesArr st ! k) (bitsPushed st ! k)]
                        else indicesArr st),
        bitsPushed := (bitsPushed st)[k := Suc (bitsPushed st ! k)]\<rparr>"

text \<open>
  Lines 458-467 (with no bit to set) and lines 492-503: the inner loop runs down from the
  cursor \<open>k\<close>, until cell 0 or a cell that is not grouped with the next one.
\<close>

fun pushLoop :: "nat \<Rightarrow> bool \<Rightarrow> nat \<Rightarrow> indexState \<Rightarrow> indexState" where
  "pushLoop leafCount setBit 0 st = (pushBit setBit 0 st)\<lparr>leafIndex := leafCount - 1\<rparr>"
| "pushLoop leafCount setBit (Suc k) st =
     (if \<not> groupedWithNext st ! Suc k then (pushBit setBit (Suc k) st)\<lparr>leafIndex := k\<rparr>
      else pushLoop leafCount setBit k (pushBit setBit (Suc k) st))"

text \<open>Lines 473-489: the same, marking every visited cell as grouped with the next one.\<close>

fun groupLoop :: "nat \<Rightarrow> bool \<Rightarrow> nat \<Rightarrow> indexState \<Rightarrow> indexState" where
  "groupLoop leafCount setBit 0 st = (pushBit setBit 0 st)\<lparr>leafIndex := leafCount - 1\<rparr>"
| "groupLoop leafCount setBit (Suc k) st =
     (if \<not> groupedWithNext st ! Suc k
      then (pushBit setBit (Suc k) st)\<lparr>groupedWithNext := (groupedWithNext st)[Suc k := True],
                                         leafIndex := k\<rparr>
      else groupLoop leafCount setBit k
             ((pushBit setBit (Suc k) st)\<lparr>groupedWithNext := (groupedWithNext st)[Suc k := True]\<rparr>))"

text \<open>Lines 457-503: one round, with the three bits of the round read by the caller.\<close>

definition indexStep :: "nat \<Rightarrow> bool \<Rightarrow> bool \<Rightarrow> bool \<Rightarrow> indexState \<Rightarrow> indexState" where
  "indexStep leafCount flag skip order st =
     (if skip then pushLoop leafCount False (leafIndex st) st
      else
        (let st1 = (if flag then groupLoop leafCount order (leafIndex st) st else st)
         in pushLoop leafCount (\<not> order) (leafIndex st1) st1))"

fun getIndicesLoop :: "nat \<Rightarrow> bool list \<Rightarrow> bool list \<Rightarrow> bool list \<Rightarrow> nat list \<Rightarrow> indexState \<Rightarrow> indexState" where
  "getIndicesLoop leafCount flags' skips' orders' [] st = st"
| "getIndicesLoop leafCount flags' skips' orders' (i # rest) st =
     getIndicesLoop leafCount flags' skips' orders' rest
       (indexStep leafCount (js_bool flags' i) (js_bool skips' i) (js_bool orders' i) st)"

definition initIndex :: "nat \<Rightarrow> indexState" where
  "initIndex leafCount =
     \<lparr>indicesArr = replicate leafCount 0, groupedWithNext = replicate leafCount False,
      bitsPushed = replicate leafCount 0, leafIndex = leafCount - 1\<rparr>"

text \<open>
  Lines 445-507. With \<open>leafCount = 0\<close> the arrays are empty and the cursor is negative: the
  TypeScript loops then only touch properties that are no elements of the arrays, each
  inner loop stops at the first cell that was never marked, and the array returned is
  empty. In the model the arrays stay empty as well.
\<close>

definition getIndicesWithBooleans :: "nat \<Rightarrow> bool list \<Rightarrow> bool list \<Rightarrow> bool list \<Rightarrow> error + int list" where
  "getIndicesWithBooleans leafCount flags' skips' orders' =
     (if length orders' = 0 then Inl CannotInferIndices
      else Inr (indicesArr (getIndicesLoop leafCount flags' skips' orders' [0..<length flags']
                  (initIndex leafCount))))"

text \<open>Lines 525-582: \<open>while (true)\<close> over the bit sets.\<close>

partial_function (option) getIndicesBitsLoop :: "nat \<Rightarrow> nat \<Rightarrow> nat \<Rightarrow> nat \<Rightarrow> nat \<Rightarrow> indexState
    \<Rightarrow> indexState option" where
  "getIndicesBitsLoop leafCount flags' skips' orders' bitCheck st =
     (if skips' AND bitCheck \<noteq> 0 \<and> flags' AND bitCheck \<noteq> 0 then Some st
      else getIndicesBitsLoop leafCount flags' skips' orders' (2 * bitCheck)
             (indexStep leafCount (flags' AND bitCheck \<noteq> 0) (skips' AND bitCheck \<noteq> 0)
                (orders' AND bitCheck \<noteq> 0) st))"

declare getIndicesBitsLoop.simps [code]

text \<open>Lines 512-583. Reading a bit set from a missing word raises a TypeError.\<close>

definition getIndicesWithBits :: "nat \<Rightarrow> buffer list \<Rightarrow> (error + int list) option" where
  "getIndicesWithBits leafCount compactProof' =
     (if length compactProof' < 4 then Some (Inl TypeError)
      else
        (let flags' = bufferToBigInt (compactProof' ! 1);
             skips' = bufferToBigInt (compactProof' ! 2);
             orders' = bufferToBigInt (compactProof' ! 3)
         in case getIndicesBitsLoop leafCount flags' skips' orders' 1 (initIndex leafCount) of
              None \<Rightarrow> None
            | Some st \<Rightarrow> Some (Inr (indicesArr st))))"

text \<open>Lines 585-589.\<close>

definition getIndices :: "nat \<Rightarrow> buffer list \<Rightarrow> bool list \<Rightarrow> bool list \<Rightarrow> bool list option
    \<Rightarrow> (error + int list) option" where
  "getIndices leafCount compactProof' flags' skips' orders' =
     (if length compactProof' > 0 then getIndicesWithBits leafCount compactProof'
      else Some (getIndicesWithBooleans leafCount flags' skips' (orDefault orders')))"

section \<open>Append proofs\<close>

text \<open>Modelled from the spec: \<open>bitCount32\<close> of module \<open>utils\<close>, the number of set bits of a
  32-bit integer.\<close>

fun bitCount :: "nat \<Rightarrow> nat" where
  "bitCount n = (if n = 0 then 0 else n mod 2 + bitCount (n div 2))"

declare bitCount.simps [simp del]

definition bitCount32 :: "nat \<Rightarrow> nat" where
  "bitCount32 n = bitCount (n mod 2 ^ 32)"

text \<open>
  Lines 13-17 of the append module: \<open>for (let i = leafCount + elementCount; i > 1; i >>>= 1)\<close>,
  with \<open>unshift\<close> as consing.
\<close>

fun appendDecommitments :: "buffer option list \<Rightarrow> nat \<Rightarrow> buffer option list \<Rightarrow> buffer option list" where
  "appendDecommitments tree i acc =
     (if i > 1
      then appendDecommitments tree (i div 2)
             (if odd i \<or> i = 2 then js_nth tree (i - 1) # acc else acc)
      else acc)"

declare appendDecommitments.simps [simp del]

text \<open>Lines 9-31. \<open>Buffer.from\<close> applied to an absent node raises a TypeError.\<close>

definition generate_append :: "buffer option list \<Rightarrow> nat \<Rightarrow> treeOptions \<Rightarrow> error + appendProof" where
  "generate_append tree elemCount options =
     (let leafCount = length tree div 2;
          ds = appendDecommitments tree (leafCount + elemCount) []
      in if None \<in> set ds then Inl TypeError
         else if compact options
         then Inr \<lparr>elementCount = 0,
                   compactProof = [to32ByteBuffer elemCount] @ map the ds,
                   decommitments = []\<rparr>
         else Inr \<lparr>elementCount = elemCount, compactProof = [], decommitments = map the ds\<rparr>)"

text \<open>
  The verifiers of the append module are run together with the list of the indices at which
  they read \<open>decommitments\<close>, in the order of the reads. An index is an integer: it can be
  -1.
\<close>

definition readAt :: "buffer list \<Rightarrow> int \<Rightarrow> buffer option" where
  "readAt ds i = (if 0 \<le> i \<and> i < int (length ds) then Some (ds ! nat i) else None)"

record 'a traced =
  reads :: "int list"
  outcome :: "error + 'a"

text \<open>Lines 47-49: \<open>while (index > 0) hash = hashFunction(decommitments[--index], hash)\<close>.\<close>

fun getRootLoop :: "treeOptions \<Rightarrow> buffer list \<Rightarrow> nat \<Rightarrow> buffer option \<Rightarrow> int list
    \<Rightarrow> (buffer option) traced" where
  "getRootLoop options ds 0 hash rs = \<lparr>reads = rs, outcome = Inr hash\<rparr>"
| "getRootLoop options ds (Suc k) hash rs =
     (case applyHash options (readAt ds (int k)) hash of
        Inl e \<Rightarrow> \<lparr>reads = rs @ [int k], outcome = Inl e\<rparr>
      | Inr h \<Rightarrow> getRootLoop options ds k (Some h) (rs @ [int k]))"

text \<open>Lines 39-42, shared by the three verifiers.\<close>

definition proofArgs :: "buffer list \<Rightarrow> nat \<Rightarrow> buffer list \<Rightarrow> nat \<times> buffer list" where
  "proofArgs compactProof' elemCount decommitments' =
     (if length compactProof' > 0
      then (from32ByteBuffer (compactProof' ! 0), drop 1 compactProof')
      else (elemCount, decommitments'))"

text \<open>Lines 38-52.\<close>

definition getRoot_append :: "buffer list \<Rightarrow> nat \<Rightarrow> buffer list \<Rightarrow> treeOptions \<Rightarrow> rootResult traced" where
  "getRoot_append compactProof' elemCount decommitments' options =
     (let (n, ds) = proofArgs compactProof' elemCount decommitments';
          index = int (bitCount32 n) - 1;
          hash = readAt ds index;
          r = getRootLoop options ds (nat index) hash [index]
      in \<lparr>reads = reads r,
          outcome = (case outcome r of
                       Inl e \<Rightarrow> Inl e
                     | Inr h \<Rightarrow> Inr \<lparr>elementCount = n, root = h\<rparr>)\<rparr>)"

text \<open>Lines 69-72: each round reads \<open>decommitments[--index]\<close> and then \<open>decommitments[index]\<close>.\<close>

fun getNewRootSingleLoop :: "treeOptions \<Rightarrow> buffer list \<Rightarrow> nat \<Rightarrow> buffer option \<Rightarrow> buffer option
    \<Rightarrow> int list \<Rightarrow> (buffer option \<times> buffer option) traced" where
  "getNewRootSingleLoop options ds 0 hash appendHash rs =
     \<lparr>reads = rs, outcome = Inr (hash, appendHash)\<rparr>"
| "getNewRootSingleLoop options ds (Suc k) hash appendHash rs =
     (case applyHash options (readAt ds (int k)) appendHash of
        Inl e \<Rightarrow> \<lparr>reads = rs @ [int k], outcome = Inl e\<rparr>
      | Inr a \<Rightarrow>
          (case applyHash options (readAt ds (int k)) hash of
             Inl e \<Rightarrow> \<lparr>reads = rs @ [int k, int k], outcome = Inl e\<rparr>
           | Inr h \<Rightarrow> getNewRootSingleLoop options ds k (Some h) (Some a) (rs @ [int k, int k])))"

text \<open>Lines 59-75.\<close>

definition getNewRootSingle :: "buffer \<Rightarrow> buffer list \<Rightarrow> nat \<Rightarrow> buffer list \<Rightarrow> treeOptions
    \<Rightarrow> newRootResult traced" where
  "getNewRootSingle appendLeaf compactProof' elemCount decommitments' options =
     (let (n, ds) = proofArgs compactProof' elemCount decommitments';
          index = int (bitCount32 n) - 1;
          hash = readAt ds index
      in case applyHash options (readAt ds index) (Some appendLeaf) of
           Inl e \<Rightarrow> \<lparr>reads = [index, index], outcome = Inl e\<rparr>
         | Inr a \<Rightarrow>
             (let r = getNewRootSingleLoop options ds (nat index) hash (Some a) [index, index]
              in \<lparr>reads = reads r,
                  outcome = (case outcome r of
                               Inl e \<Rightarrow> Inl e
                             | Inr (h, a') \<Rightarrow> Inr \<lparr>elementCount = n, root = h, newRoot = a'\<rparr>)\<rparr>))"

text \<open>
  The state of the loop of \<open>getNewRootMulti\<close>. \<open>appendHashes\<close> is only read cell by cell
  (a cell out of range is \<open>undefined\<close>), and it is written at \<open>writeIndex\<close>, which never
  exceeds \<open>readIndex\<close>: a defined value is written in range, and \<open>undefined\<close> written out
  of range changes no read.
\<close>

record multiState =
  m_decommitmentIndex :: int
  m_hash :: "buffer option"
  appendHashes :: "buffer option list"
  upperBound :: nat
  m_writeIndex :: nat
  m_readIndex :: nat
  offset :: nat
  index :: nat
  m_reads :: "int list"

definition js_set :: "'a option list \<Rightarrow> nat \<Rightarrow> 'a option \<Rightarrow> 'a option list" where
  "js_set xs i v = (if i < length xs then xs[i := v] else xs)"

text \<open>
  Lines 98-107: the two branches that hash. A failure carries the reads made up to it.
\<close>

definition multiHash :: "treeOptions \<Rightarrow> buffer list \<Rightarrow> multiState \<Rightarrow> (error \<times> int list) + multiState" where
  "multiHash options ds st =
     (if m_writeIndex st = 0 \<and> odd (index st)
      then
        (let i = m_decommitmentIndex st;
             rs = m_reads st @ [i]
         in case applyHash options (readAt ds i) (js_nth (appendHashes st) (m_readIndex st)) of
              Inl e \<Rightarrow> Inl (e, rs)
            | Inr a \<Rightarrow>
                (let st1 = st\<lparr>appendHashes := js_set (appendHashes st) (m_writeIndex st) (Some a),
                              m_writeIndex := Suc (m_writeIndex st),
                              m_readIndex := Suc (m_readIndex st),
                              m_decommitmentIndex := i - 1,
                              index := Suc (index st)\<rparr>
                 in if i - 1 \<ge> 0
                    then (case applyHash options (readAt ds (i - 1)) (m_hash st) of
                            Inl e \<Rightarrow> Inl (e, rs @ [i - 1])
                          | Inr h \<Rightarrow> Inr (st1\<lparr>m_hash := Some h, m_reads := rs @ [i - 1]\<rparr>))
                    else Inr (st1\<lparr>m_reads := rs\<rparr>)))
      else if index st < upperBound st
      then
        (case applyHash options (js_nth (appendHashes st) (m_readIndex st))
                (js_nth (appendHashes st) (Suc (m_readIndex st))) of
           Inl e \<Rightarrow> Inl (e, m_reads st)
         | Inr a \<Rightarrow>
             Inr (st\<lparr>appendHashes := js_set (appendHashes st) (m_writeIndex st) (Some a),
                     m_writeIndex := Suc (m_writeIndex st),
                     m_readIndex := Suc (Suc (m_readIndex st)),
                     index := index st + 2\<rparr>))
      else Inr st)"

text \<open>Lines 109-117: the end of a level.\<close>

definition multiLevel :: "multiState \<Rightarrow> multiState" where
  "multiLevel st =
     (if index st \<ge> upperBound st
      then
        (let hs = (if index st = upperBound st
                   then js_set (appendHashes st) (m_writeIndex st)
                          (js_nth (appendHashes st) (m_readIndex st))
                   else appendHashes st)
         in st\<lparr>appendHashes := hs, m_readIndex := 0, m_writeIndex := 0,
               upperBound := upperBound st div 2, offset := offset st div 2,
               index := offset st div 2\<rparr>)
      else st)"

text \<open>Line 97: \<open>while (upperBound > 0)\<close>.\<close>

function getNewRootMultiLoop :: "treeOptions \<Rightarrow> buffer list \<Rightarrow> multiState
    \<Rightarrow> (error \<times> int list) + multiState" where
  "getNewRootMultiLoop options ds st =
     (if upperBound st > 0
      then (case multiHash options ds st of
              Inl e \<Rightarrow> Inl e
            | Inr st' \<Rightarrow> getNewRootMultiLoop options ds (multiLevel st'))
      else Inr st)"
  by pat_completeness auto
termination
proof (relation "measures [\<lambda>(options, ds, st). upperBound st,
                           \<lambda>(options, ds, st). upperBound st - index st]", goal_cases)
  case 1
  show ?case by simp
next
  case (2 options ds st st')
  then have ub: "upperBound st' = upperBound st" and ix: "index st \<le> index st'"
    and adv: "index st' \<le> index st \<Longrightarrow> upperBound st \<le> index st"
    by (auto simp: multiHash_def Let_def split: if_splits sum.splits)
  show ?case
  proof (cases "index st' \<ge> upperBound st'")
    case True
    with 2 ub show ?thesis by (simp add: multiLevel_def Let_def)
  next
    case False
    with ub ix adv have "index st < index st'" "index st' < upperBound st"
      by (cases "index st' \<le> index st"; simp)+
    with False ub show ?thesis by (simp add: multiLevel_def)
  qed
qed

declare getNewRootMultiLoop.simps [simp del]

text \<open>
  Lines 82-121. When there is neither an element nor a leaf to append, \<open>upperBound\<close> is -1
  and the loop does not run; otherwise it is a natural number.
\<close>

definition getNewRootMulti :: "buffer list \<Rightarrow> buffer list \<Rightarrow> nat \<Rightarrow> buffer list \<Rightarrow> treeOptions
    \<Rightarrow> newRootResult traced" where
  "getNewRootMulti appendLeafs compactProof' elemCount decommitments' options =
     (let (n, ds) = proofArgs compactProof' elemCount decommitments';
          decIndex = int (bitCount32 n) - 1;
          st0 = \<lparr>m_decommitmentIndex = decIndex, m_hash = readAt ds decIndex,
                 appendHashes = map Some appendLeafs,
                 upperBound = n + length appendLeafs - 1,
                 m_writeIndex = 0, m_readIndex = 0, offset = n, index = n,
                 m_reads = [decIndex]\<rparr>
      in if n + length appendLeafs = 0
         then \<lparr>reads = [decIndex],
               outcome = Inr \<lparr>elementCount = n, root = m_hash st0,
                              newRoot = js_nth (appendHashes st0) 0\<rparr>\<rparr>
         else
           (case getNewRootMultiLoop options ds st0 of
              Inl (e, rs) \<Rightarrow> \<lparr>reads = rs, outcome = Inl e\<rparr>
            | Inr st \<Rightarrow>
                \<lparr>reads = m_reads st,
                 outcome = Inr \<lparr>elementCount = n, root = m_hash st,
                                newRoot = js_nth (appendHashes st) 0\<rparr>\<rparr>))"

text \<open>Lines 123-127: \<open>appendLeafs\<close> is one Buffer or an array of them.\<close>

datatype appendArg = Single buffer | Multi "buffer list"

definition getNewRoot_append :: "appendArg \<Rightarrow> buffer list \<Rightarrow> nat \<Rightarrow> buffer list \<Rightarrow> treeOptions
    \<Rightarrow> newRootResult traced" where
  "getNewRoot_append appendLeafs compactProof' elemCount decommitments' options =
     (case appendLeafs of
        Single leaf \<Rightarrow> getNewRootSingle leaf compactProof' elemCount decommitments' options
      | Multi leafs \<Rightarrow> getNewRootMulti leafs compactProof' elemCount decommitments' options)"

section \<open>The on-chain verifier\<close>

text \<open>
  Contract \<open>Flag_Multi_Proofs\<close>. \<open>flags\<close> and \<open>skips\<close> are \<open>bytes32\<close> values; the member
  \<open>length\<close> of a fixed-size byte array is its size in bytes, 32 for every value. The
  indices into the memory arrays stay below the array lengths plus one, so they are \<open>nat\<close>;
  \<open>bit_check\<close> is shifted as a 256-bit word. The memory array \<open>hashes\<close> is the field
  \<open>hashes_mem\<close>. An array access out of range and a modulo
  by zero abort the call: the result is \<open>None\<close>.
\<close>

definition bytes32_length :: "buffer \<Rightarrow> 256 word" where
  "bytes32_length b = 32"

record verifyState =
  hashes_mem :: "buffer list"
  hash_read_index :: nat
  hash_write_index :: nat
  decommitment_index :: nat
  bit_check :: buffer

text \<open>Contract lines 45-60: the body of the loop over the hash steps.\<close>

definition verifyStep :: "(buffer \<Rightarrow> buffer \<Rightarrow> buffer) \<Rightarrow> buffer \<Rightarrow> buffer \<Rightarrow> buffer list \<Rightarrow> nat
    \<Rightarrow> verifyState \<Rightarrow> verifyState option" where
  "verifyStep H flags' skips' decommitments' leaf_count st =
     (if skips' AND bit_check st = bit_check st
      then
        (if hash_read_index st < length (hashes_mem st) \<and> hash_write_index st < length (hashes_mem st)
            \<and> leaf_count \<noteq> 0
         then Some (st\<lparr>hashes_mem := (hashes_mem st)[hash_write_index st := hashes_mem st ! hash_read_index st],
                       hash_read_index := Suc (hash_read_index st) mod leaf_count,
                       hash_write_index := Suc (hash_write_index st) mod leaf_count,
                       bit_check := push_bit 1 (bit_check st)\<rparr>)
         else None)
      else
        (let flag = (flags' AND bit_check st = bit_check st);
             inRange = (if flag then hash_read_index st < length (hashes_mem st)
                        else decommitment_index st < length decommitments');
             left = (if flag then hashes_mem st ! hash_read_index st
                     else decommitments' ! decommitment_index st);
             r1 = (if flag then Suc (hash_read_index st) else hash_read_index st);
             d1 = (if flag then decommitment_index st else Suc (decommitment_index st))
         in if inRange \<and> leaf_count \<noteq> 0 \<and> r1 mod leaf_count < length (hashes_mem st)
               \<and> hash_write_index st < length (hashes_mem st)
            then Some (st\<lparr>hashes_mem := (hashes_mem st)[hash_write_index st :=
                                       hash_pair H left (hashes_mem st ! (r1 mod leaf_count))],
                          hash_read_index := Suc (r1 mod leaf_count) mod leaf_count,
                          hash_write_index := Suc (hash_write_index st) mod leaf_count,
                          decommitment_index := d1,
                          bit_check := push_bit 1 (bit_check st)\<rparr>)
            else None))"

text \<open>Contract line 44: \<open>for (uint256 i = 0; i < hash_count; i++)\<close>, as the number of rounds left.\<close>

fun verifyLoop :: "(buffer \<Rightarrow> buffer \<Rightarrow> buffer) \<Rightarrow> buffer \<Rightarrow> buffer \<Rightarrow> buffer list \<Rightarrow> nat
    \<Rightarrow> nat \<Rightarrow> verifyState \<Rightarrow> verifyState option" where
  "verifyLoop H flags' skips' decommitments' leaf_count 0 st = Some st"
| "verifyLoop H flags' skips' decommitments' leaf_count (Suc n) st =
     (case verifyStep H flags' skips' decommitments' leaf_count st of
        None \<Rightarrow> None
      | Some st' \<Rightarrow> verifyLoop H flags' skips' decommitments' leaf_count n st')"

text \<open>
  Contract lines 27-64. \<open>storedRoot\<close> is the state variable \<open>root\<close>. On line 63 the index
  \<open>(hash_write_index == 0 ? leaf_count : hash_write_index) - 1\<close> wraps around to
  \<open>2 ^ 256 - 1\<close> when there is no element, which is out of range.
\<close>

definition verify :: "(buffer \<Rightarrow> buffer \<Rightarrow> buffer) \<Rightarrow> buffer \<Rightarrow> 256 word \<Rightarrow> buffer list \<Rightarrow> 256 word
    \<Rightarrow> buffer \<Rightarrow> buffer \<Rightarrow> buffer list \<Rightarrow> bool option" where
  "verify H storedRoot element_count elements hash_count flags' skips' decommitments' =
     (if bytes32_length flags' \<noteq> hash_count \<and> bytes32_length skips' \<noteq> hash_count then Some False
      else
        (let leaf_count = length elements;
             st0 = \<lparr>hashes_mem = map (\<lambda>e. H 0 e) elements, hash_read_index = 0,
                    hash_write_index = 0, decommitment_index = 0, bit_check = 1\<rparr>
         in case verifyLoop H flags' skips' decommitments' leaf_count (unat hash_count) st0 of
              None \<Rightarrow> None
            | Some st \<Rightarrow>
                (let w = (if hash_write_index st = 0 then leaf_count else hash_write_index st)
                 in if w = 0 then None
                    else Some (H element_count (hashes_mem st ! (w - 1)) = storedRoot))))"

section \<open>Notions used in the proofs\<close>

text \<open>
  \<open>subtreeRoot hf d xs\<close> is the root of the subtree of height \<open>d\<close> over the leaf images
  \<open>xs\<close>, and \<open>isTree hf L xs T\<close> says that the node array \<open>T\<close> is the tree with \<open>L\<close> leaf
  slots over \<open>xs\<close>. \<open>runSteps\<close> is the automaton of the verifier on a queue in place of
  the circular buffer: a step is the triple of its flag, skip and order bits, and the
  result is the queue and the decommitments left, or \<open>None\<close> when an operand is missing.
  \<open>window\<close> and \<open>absQ\<close> relate the circular buffer to the queue. \<open>stepsOf\<close>, \<open>decsOf\<close>
  and \<open>queueAt\<close> read the steps and the decommitments emitted so far by the generation
  loop and the queue expected after them; \<open>ctl\<close>, \<open>agree\<close> and \<open>ran\<close> are the three
  parts of the invariant of the generation loop. \<open>finalGen\<close> is the state at the end of
  generation, and \<open>pairSt\<close> relates the two-buffer state of the update to two one-buffer
  states.
\<close>

fun subtreeRoot :: "(buffer \<Rightarrow> buffer \<Rightarrow> buffer) \<Rightarrow> nat \<Rightarrow> buffer list \<Rightarrow> buffer option" where
  "subtreeRoot hf 0 xs = (case xs of [] \<Rightarrow> None | x # _ \<Rightarrow> Some x)"
| "subtreeRoot hf (Suc d) xs = parentNode hf (subtreeRoot hf d (take (2 ^ d) xs)) (subtreeRoot hf d (drop (2 ^ d) xs))"

definition isTree :: "(buffer \<Rightarrow> buffer \<Rightarrow> buffer) \<Rightarrow> nat \<Rightarrow> buffer list \<Rightarrow> buffer option list \<Rightarrow> bool" where
  "isTree hf L xs T \<longleftrightarrow>
     length T = 2 * L \<and> length xs \<le> L \<and>
     (\<forall>j. j < L \<longrightarrow> T ! (L + j) = js_get xs j) \<and>
     (\<forall>j. 1 \<le> j \<and> j < L \<longrightarrow> T ! j = parentNode hf (T ! (2 * j)) (T ! (2 * j + 1)))"

type_synonym hstep = "bool \<times> bool \<times> bool"

fun runSteps :: "(buffer \<Rightarrow> buffer \<Rightarrow> buffer) \<Rightarrow> hstep list \<Rightarrow> buffer list \<Rightarrow> buffer list
    \<Rightarrow> (buffer list \<times> buffer list) option" where
  "runSteps hf [] ds q = Some (q, ds)"
| "runSteps hf ((f, s, od) # rest) ds q =
     (if s then (case q of [] \<Rightarrow> None | x # q' \<Rightarrow> runSteps hf rest ds (q' @ [x]))
      else if f
      then (case q of
              r # l # q' \<Rightarrow> runSteps hf rest ds (q' @ [if od then hf l r else hf r l])
            | _ \<Rightarrow> None)
      else (case q of
              [] \<Rightarrow> None
            | l # q' \<Rightarrow>
                (case ds of
                   [] \<Rightarrow> None
                 | d # ds' \<Rightarrow> runSteps hf rest ds' (q' @ [if od then hf l d else hf d l]))))"

definition window :: "buffer list \<Rightarrow> nat \<Rightarrow> buffer list \<Rightarrow> bool" where
  "window hs r q \<longleftrightarrow>
     r < length hs \<and> length q \<le> length hs \<and> (\<forall>k<length q. hs ! ((r + k) mod length hs) = q ! k)"

definition absQ :: "nat \<Rightarrow> rootState \<Rightarrow> buffer list \<Rightarrow> bool" where
  "absQ m st q \<longleftrightarrow>
     length (hashes st) = m \<and> window (hashes st) (readIndex st) q \<and> q \<noteq> [] \<and>
     writeIndex st = (readIndex st + length q) mod m"

definition stepsOf :: "genState \<Rightarrow> hstep list" where
  "stepsOf s = zip (flagsAcc s) (zip (skipsAcc s) (ordersAcc s))"

definition decsOf :: "genState \<Rightarrow> buffer list" where
  "decsOf s = map the (filter (\<lambda>d. d \<noteq> None) (decs s))"

definition queueAt :: "buffer option list \<Rightarrow> (nat \<Rightarrow> bool) \<Rightarrow> nat \<Rightarrow> buffer list" where
  "queueAt T K n = map (\<lambda>j. the (T ! j)) (filter K (rev [Suc n..<2 * n + 2]))"

definition ctl :: "nat \<Rightarrow> genState \<Rightarrow> bool" where
  "ctl n s \<longleftrightarrow>
     (\<forall>j. 1 \<le> j \<and> j \<le> n \<longrightarrow> (relevant s j \<longleftrightarrow> known s (2 * j) \<or> known s (2 * j + 1))) \<and>
     (\<forall>j\<le>n. \<not> known s j)"

definition agree :: "nat \<Rightarrow> buffer option list \<Rightarrow> buffer option list \<Rightarrow> nat \<Rightarrow> genState \<Rightarrow> bool" where
  "agree L T T' n s \<longleftrightarrow>
     (\<forall>j. n < j \<and> j < 2 * L \<longrightarrow>
        (if known s j then T ! j \<noteq> None \<and> T' ! j \<noteq> None else T' ! j = T ! j))"

definition ran :: "(buffer \<Rightarrow> buffer \<Rightarrow> buffer) \<Rightarrow> buffer option list \<Rightarrow> buffer list \<Rightarrow> nat \<Rightarrow> genState \<Rightarrow> bool" where
  "ran hf T' q0 n s \<longleftrightarrow>
     length (flagsAcc s) = length (skipsAcc s) \<and> length (ordersAcc s) = length (skipsAcc s) \<and>
     runSteps hf (stepsOf s) (decsOf s) q0 = Some (queueAt T' (known s) n, []) \<and>
     (\<forall>x\<in>set (stepsOf s). \<not> (fst x \<and> fst (snd x))) \<and>
     length (decsOf s) = length (filter (\<lambda>x. \<not> fst x \<and> \<not> fst (snd x)) (stepsOf s))"

definition genInv :: "(buffer \<Rightarrow> buffer \<Rightarrow> buffer) \<Rightarrow> nat \<Rightarrow> buffer option list \<Rightarrow> buffer option list
    \<Rightarrow> buffer list \<Rightarrow> nat \<Rightarrow> genState \<Rightarrow> bool" where
  "genInv hf L T T' q0 n s \<longleftrightarrow> ctl n s \<and> agree L T T' n s \<and> ran hf T' q0 n s"

definition finalGen :: "buffer option list \<Rightarrow> nat list \<Rightarrow> genState" where
  "finalGen T indices =
     (case markLoop indices (length T div 2) [0..<length indices] initGen of
        Inl e \<Rightarrow> initGen
      | Inr s0 \<Rightarrow> genLoop T (length T div 2 - 1) s0)"

definition pairSt :: "newRootState \<Rightarrow> rootState \<Rightarrow> rootState \<Rightarrow> bool" where
  "pairSt st st1 st2 \<longleftrightarrow>
     hashes st = hashes st1 \<and> updateHashes st = hashes st2 \<and>
     readIndex st = readIndex st1 \<and> readIndex st = readIndex st2 \<and>
     writeIndex st = writeIndex st1 \<and> writeIndex st = writeIndex st2 \<and>
     decommitmentIndex st = decommitmentIndex st1 \<and> decommitmentIndex st = decommitmentIndex st2"

text \<open>
  For the append proofs: \<open>peaksBelow hf d xs\<close> lists, from the largest to the smallest, the
  roots of the perfect subtrees into which fewer than \<open>2 ^ d\<close> leaf images split (one for
  every bit set in their number), and \<open>bag\<close> hashes such a list from the right.
  \<open>nodeVal hf ys t p\<close> is the node at height \<open>t\<close> and position \<open>p\<close> of the tree over
  \<open>ys\<close>, \<open>peaksAt hf xs t\<close> is the part of the peaks that lies below height \<open>t\<close>, and
  \<open>appendInv\<close> is the invariant of the loop of \<open>getNewRootMulti\<close> at the level \<open>t\<close>:
  the cells already written hold the nodes of the next level, the cells not yet read hold
  the nodes of this level, and \<open>hash\<close> is the bag of the decommitments consumed so far
  and the next one.
\<close>

fun peaksBelow :: "(buffer \<Rightarrow> buffer \<Rightarrow> buffer) \<Rightarrow> nat \<Rightarrow> buffer list \<Rightarrow> buffer list" where
  "peaksBelow hf 0 xs = []"
| "peaksBelow hf (Suc d) xs =
     (if 2 ^ d \<le> length xs
      then the (subtreeRoot hf d (take (2 ^ d) xs)) # peaksBelow hf d (drop (2 ^ d) xs)
      else peaksBelow hf d xs)"

definition bag :: "(buffer \<Rightarrow> buffer \<Rightarrow> buffer) \<Rightarrow> buffer list \<Rightarrow> buffer" where
  "bag hf ps = foldr hf (butlast ps) (last ps)"

definition nodeVal :: "(buffer \<Rightarrow> buffer \<Rightarrow> buffer) \<Rightarrow> buffer list \<Rightarrow> nat \<Rightarrow> nat \<Rightarrow> buffer option" where
  "nodeVal hf ys t p = subtreeRoot hf t (take (2 ^ t) (drop (p * 2 ^ t) ys))"

definition peaksAt :: "(buffer \<Rightarrow> buffer \<Rightarrow> buffer) \<Rightarrow> buffer list \<Rightarrow> nat \<Rightarrow> buffer list" where
  "peaksAt hf xs t = peaksBelow hf t (drop ((length xs div 2 ^ t) * 2 ^ t) xs)"

definition appendInv :: "(buffer \<Rightarrow> buffer \<Rightarrow> buffer) \<Rightarrow> buffer list \<Rightarrow> buffer list \<Rightarrow> buffer list
    \<Rightarrow> nat \<Rightarrow> multiState \<Rightarrow> bool" where
  "appendInv hf xs A ds t st \<longleftrightarrow>
     offset st = length xs div 2 ^ t \<and>
     upperBound st = (length xs + length A - 1) div 2 ^ t \<and>
     index st = offset st + m_readIndex st \<and>
     m_writeIndex st = index st div 2 - offset st div 2 \<and>
     index st \<le> upperBound st + 1 \<and>
     (m_readIndex st = 0 \<or> even (index st)) \<and>
     (\<forall>j<m_writeIndex st.
        js_nth (appendHashes st) j = nodeVal hf (xs @ A) (Suc t) (offset st div 2 + j)) \<and>
     (\<forall>j. m_readIndex st \<le> j \<and> offset st + j \<le> upperBound st \<longrightarrow>
        js_nth (appendHashes st) j = nodeVal hf (xs @ A) t (offset st + j)) \<and>
     (\<exists>hi. ds = hi @ (if m_readIndex st = 0 then peaksAt hf xs t else peaksAt hf xs (Suc t)) \<and>
           m_decommitmentIndex st = int (length hi) - 1 \<and>
           m_hash st = Some (bag hf (if hi = []
              then (if m_readIndex st = 0 then peaksAt hf xs t else peaksAt hf xs (Suc t))
              else last hi # (if m_readIndex st = 0 then peaksAt hf xs t else peaksAt hf xs (Suc t)))))"

text \<open>
  \<open>okReads n rs\<close> says that the reads \<open>rs\<close> of \<open>decommitments\<close> start at the number of
  bits set in \<open>n\<close> less one and stay from there on between 0 and that index, and
  \<open>readsInv\<close> is the part of the invariant of the loop of \<open>getNewRootMulti\<close> that does not
  depend on the hashes: where the cursors are at the level \<open>t\<close>, and that
  \<open>decommitmentIndex\<close> counts the bits of the element count from that level up.
\<close>

definition okReads :: "nat \<Rightarrow> int list \<Rightarrow> bool" where
  "okReads n rs \<longleftrightarrow>
     (\<exists>rest. rs = (int (bitCount n) - 1) # rest \<and> (\<forall>i\<in>set rest. 0 \<le> i \<and> i < int (bitCount n)))"

definition readsInv :: "nat \<Rightarrow> nat \<Rightarrow> multiState \<Rightarrow> bool" where
  "readsInv n t st \<longleftrightarrow>
     offset st = n div 2 ^ t \<and> index st = offset st + m_readIndex st \<and>
     m_writeIndex st = index st div 2 - offset st div 2 \<and>
     (m_readIndex st = 0 \<or> (even (index st) \<and> index st < upperBound st)) \<and>
     m_decommitmentIndex st =
       int (bitCount (n div 2 ^ (if m_readIndex st = 0 then t else Suc t))) - 1 \<and>
     okReads n (m_reads st)"

section \<open>Generation and the order of the indices\<close>

lemma markLoop_unsorted_iff:
  "(markLoop indices leafCount is s = Inl e) \<longleftrightarrow>
     (e = UnsortedIndices \<and> (\<exists>i\<in>set is. i \<noteq> 0 \<and> indices ! (i - 1) > indices ! i))"
  by (induction "is" arbitrary: s) auto


lemma descending_pair_iff:
  "(\<exists>i\<in>set [0..<length xs]. i \<noteq> 0 \<and> xs ! (i - 1) > xs ! i) \<longleftrightarrow> \<not> sorted (xs :: nat list)"
proof
  assume "\<exists>i\<in>set [0..<length xs]. i \<noteq> 0 \<and> xs ! (i - 1) > xs ! i"
  then obtain i where i: "i < length xs" "i \<noteq> 0" "xs ! (i - 1) > xs ! i" by auto
  then have "Suc (i - 1) < length xs" "\<not> xs ! (i - 1) \<le> xs ! Suc (i - 1)" by auto
  then show "\<not> sorted xs" unfolding sorted_iff_nth_Suc by blast
next
  assume "\<not> sorted xs"
  then obtain j where j: "Suc j < length xs" "\<not> xs ! j \<le> xs ! Suc j"
    unfolding sorted_iff_nth_Suc by blast
  then have "Suc j \<in> set [0..<length xs]" "Suc j \<noteq> 0" "xs ! (Suc j - 1) > xs ! Suc j" by auto
  then show "\<exists>i\<in>set [0..<length xs]. i \<noteq> 0 \<and> xs ! (i - 1) > xs ! i" by blast
qed

lemma generateBooleans_error_iff:
  "(generateBooleans tree n indices options = Inl e) \<longleftrightarrow> (e = UnsortedIndices \<and> \<not> sorted indices)"
proof -
  have "(generateBooleans tree n indices options = Inl e) \<longleftrightarrow>
        (markLoop indices (length tree div 2) [0..<length indices] initGen = Inl e)"
    by (auto simp: generateBooleans_def Let_def split: sum.splits)
  then show ?thesis
    by (simp only: markLoop_unsorted_iff descending_pair_iff)
qed

lemma generateBits_unsorted_iff:
  "(generateBits tree n indices options = Inl UnsortedIndices) \<longleftrightarrow> \<not> sorted indices"
proof (cases "generateBooleans tree n indices options")
  case (Inl e)
  then show ?thesis
    using generateBooleans_error_iff [of tree n indices options e]
    by (auto simp: generateBits_def)
next
  case (Inr p)
  then have "sorted indices"
    using generateBooleans_error_iff [of tree n indices options UnsortedIndices] by auto
  with Inr show ?thesis
    by (auto simp: generateBits_def Let_def)
qed

text \<open>
  Claim C7, as the code has it. Generation fails with the error of unsorted indices exactly
  when some index is smaller than the one before it. The test of line 172 is
  \<open>indices[i - 1] > indices[i]\<close>, so equal neighbours pass; every strictly ascending list
  passes.
\<close>

theorem generate_unsorted_iff_descending:
  "(generate tree n indices options = Inl UnsortedIndices \<longleftrightarrow> \<not> sorted indices)
   \<and> (sorted_wrt (<) indices \<longrightarrow> generate tree n indices options \<noteq> Inl UnsortedIndices)"
proof -
  have a: "generate tree n indices options = Inl UnsortedIndices \<longleftrightarrow> \<not> sorted indices"
    using generateBooleans_error_iff [of tree n indices options UnsortedIndices]
      generateBits_unsorted_iff [of tree n indices options]
    by (simp add: generate_def)
  have "sorted_wrt (<) indices \<Longrightarrow> sorted indices"
    by (rule strict_sorted_imp_sorted)
  with a show ?thesis by blast
qed

theorem generate_unsorted_iff_descending_witness:
  "sorted_wrt (<) [1, 4, 5 :: nat]
   \<and> generate (treeOf (\<lambda>a b. a + b) False [1, 2, 3, 4, 5, 6, 7, 8]) 8 [1, 4, 5]
        (getOptions (\<lambda>a b. a + b) False False) \<noteq> Inl UnsortedIndices
   \<and> \<not> sorted [4, 1 :: nat]
   \<and> generate (treeOf (\<lambda>a b. a + b) False [1, 2, 3, 4, 5, 6, 7, 8]) 8 [4, 1]
        (getOptions (\<lambda>a b. a + b) False False) = Inl UnsortedIndices"
  using generate_unsorted_iff_descending
    [of "treeOf (\<lambda>a b. a + b) False [1, 2, 3, 4, 5, 6, 7, 8]" 8 "[1, 4, 5]"
        "getOptions (\<lambda>a b. a + b) False False"]
    generate_unsorted_iff_descending
    [of "treeOf (\<lambda>a b. a + b) False [1, 2, 3, 4, 5, 6, 7, 8]" 8 "[4, 1]"
        "getOptions (\<lambda>a b. a + b) False False"]
  by simp

text \<open>
  Claim C7 as stated fails: the list \<open>[2, 2]\<close> is not strictly ascending, and generation
  does not reject it.
\<close>

theorem generate_accepts_equal_indices:
  "\<not> sorted_wrt (<) [2, 2 :: nat]
   \<and> generate (treeOf (\<lambda>a b. a + b) False [1, 2, 3, 4]) 4 [2, 2]
        (getOptions (\<lambda>a b. a + b) False False) \<noteq> Inl UnsortedIndices"
  using generateBooleans_error_iff
    [of "treeOf (\<lambda>a b. a + b) False [1, 2, 3, 4]" 4 "[2, 2]"
        "getOptions (\<lambda>a b. a + b) False False" UnsortedIndices]
  by (simp add: generate_def getOptions_def)

section \<open>The length guard of the on-chain verifier\<close>

text \<open>
  Claim C9. \<open>verify\<close> returns false whenever the length of \<open>flags\<close> or the length of
  \<open>skips\<close> differs from \<open>hash_count\<close>. Both lengths are the size of a \<open>bytes32\<close>, so the
  conjunction of line 28 holds as soon as one of its two inequalities does.
\<close>

theorem verify_length_guard:
  "bytes32_length flags' \<noteq> hash_count \<or> bytes32_length skips' \<noteq> hash_count \<Longrightarrow>
   verify H storedRoot element_count elements hash_count flags' skips' decommitments' = Some False"
  by (auto simp: verify_def bytes32_length_def)

theorem verify_length_guard_witness:
  "bytes32_length (1 :: buffer) \<noteq> 5
   \<and> verify (\<lambda>a b. a + b) 0 8 [1, 2, 3] 5 1 0 [7, 9] = Some False"
proof -
  have h: "bytes32_length (1 :: buffer) \<noteq> 5 \<or> bytes32_length (0 :: buffer) \<noteq> 5"
    by (simp add: bytes32_length_def)
  show ?thesis
    using verify_length_guard [OF h, of "\<lambda>a b. a + b" 0 8 "[1, 2, 3]" "[7, 9]"]
    by (simp add: bytes32_length_def)
qed

section \<open>The tree builder\<close>

lemma getDepth_bound: "n \<le> 2 ^ getDepth n"
proof (induction n rule: getDepth.induct)
  case (1 n)
  show ?case
  proof (cases "n \<le> 1")
    case True
    then show ?thesis by (simp add: getDepth.simps [of n])
  next
    case False
    with 1 have "(n + 1) div 2 \<le> 2 ^ getDepth ((n + 1) div 2)" by simp
    then have "n \<le> 2 * 2 ^ getDepth ((n + 1) div 2)" by linarith
    with False show ?thesis by (simp add: getDepth.simps [of n])
  qed
qed

lemma getDepth_least: "max n 1 \<le> 2 ^ d \<Longrightarrow> getDepth n \<le> d"
proof (induction n arbitrary: d rule: getDepth.induct)
  case (1 n)
  show ?case
  proof (cases "n \<le> 1")
    case True
    then show ?thesis by (simp add: getDepth.simps [of n])
  next
    case False
    with 1(2) obtain d' where d: "d = Suc d'" by (cases d) auto
    with 1(2) have "(n + 1) div 2 \<le> 2 ^ d'" by simp
    then have "max ((n + 1) div 2) 1 \<le> 2 ^ d'" by simp
    with 1(1) False have "getDepth ((n + 1) div 2) \<le> d'" by simp
    with False d show ?thesis by (simp add: getDepth.simps [of n])
  qed
qed

lemma leafCountOf_bound: "n \<le> leafCountOf n" and leafCountOf_pos: "0 < leafCountOf n"
  by (simp_all add: leafCountOf_def getDepth_bound)

lemma fillNodes_length [simp]: "length (fillNodes hf k t) = length t"
  by (induction k arbitrary: t) simp_all

lemma fillNodes_above: "k < j \<Longrightarrow> fillNodes hf k t ! j = t ! j"
  by (induction k arbitrary: t) simp_all

lemma fillNodes_local:
  "1 \<le> j \<Longrightarrow> j \<le> k \<Longrightarrow> 2 * k + 1 < length t \<Longrightarrow>
   fillNodes hf k t ! j = parentNode hf (fillNodes hf k t ! (2 * j)) (fillNodes hf k t ! (2 * j + 1))"
proof (induction k arbitrary: t)
  case 0
  then show ?case by simp
next
  case (Suc k)
  let ?t = "t[Suc k := parentNode hf (t ! (2 * Suc k)) (t ! (2 * Suc k + 1))]"
  show ?case
  proof (cases "j = Suc k")
    case True
    have a: "fillNodes hf k ?t ! Suc k = ?t ! Suc k" by (rule fillNodes_above) simp
    have b: "fillNodes hf k ?t ! (2 * Suc k) = ?t ! (2 * Suc k)" by (rule fillNodes_above) simp
    have c: "fillNodes hf k ?t ! (2 * Suc k + 1) = ?t ! (2 * Suc k + 1)" by (rule fillNodes_above) simp
    from Suc.prems True a b c show ?thesis by simp
  next
    case False
    with Suc.prems have "j \<le> k" "2 * k + 1 < length ?t" by simp_all
    with Suc.IH [of ?t] Suc.prems(1) show ?thesis by simp
  qed
qed

lemma buildTree_isTree:
  "isTree (hashFunction options) (leafCountOf (length leafs)) leafs (buildTree leafs options)"
proof -
  let ?L = "leafCountOf (length leafs)"
  let ?t = "replicate ?L None @ map Some leafs @ replicate (?L - length leafs) None"
  have n: "length leafs \<le> ?L" and p: "0 < ?L" by (rule leafCountOf_bound, rule leafCountOf_pos)
  have len: "length ?t = 2 * ?L" using n by simp
  have leaf: "fillNodes (hashFunction options) (?L - 1) ?t ! (?L + j) = js_get leafs j" if "j < ?L" for j
  proof -
    have "fillNodes (hashFunction options) (?L - 1) ?t ! (?L + j) = ?t ! (?L + j)"
      using p by (intro fillNodes_above) simp
    also have "\<dots> = js_get leafs j"
      using that by (simp add: nth_append js_get_def)
    finally show ?thesis .
  qed
  have loc: "fillNodes (hashFunction options) (?L - 1) ?t ! j =
      parentNode (hashFunction options) (fillNodes (hashFunction options) (?L - 1) ?t ! (2 * j))
        (fillNodes (hashFunction options) (?L - 1) ?t ! (2 * j + 1))" if "1 \<le> j" "j < ?L" for j
    using that len by (intro fillNodes_local) simp_all
  show ?thesis
    unfolding isTree_def buildTree_def Let_def using n len leaf loc by simp
qed

lemma node_decompose: "1 \<le> (j::nat) \<Longrightarrow> j < 2 ^ D \<Longrightarrow> \<exists>k p. k < D \<and> p < 2 ^ k \<and> j = 2 ^ k + p"
proof (induction D)
  case 0
  then show ?case by auto
next
  case (Suc D)
  show ?case
  proof (cases "j < 2 ^ D")
    case True
    with Suc obtain k p where "k < D" "p < 2 ^ k" "j = 2 ^ k + p" by blast
    then show ?thesis by (intro exI [of _ k] exI [of _ p]) simp
  next
    case False
    with Suc.prems have "D < Suc D" "j - 2 ^ D < 2 ^ D" "j = 2 ^ D + (j - 2 ^ D)" by simp_all
    then show ?thesis by blast
  qed
qed

lemma subtreeRoot_None_iff: "subtreeRoot hf d xs = None \<longleftrightarrow> xs = []"
proof (induction d arbitrary: xs)
  case 0
  show ?case by (simp split: list.splits)
next
  case (Suc d)
  have "subtreeRoot hf (Suc d) xs = None \<longleftrightarrow> subtreeRoot hf d (take (2 ^ d) xs) = None"
    by (simp add: parentNode_def split: option.splits)
  with Suc show ?case by simp
qed

lemma isTree_node:
  assumes T: "isTree hf (2 ^ D) xs T"
  shows "k \<le> D \<Longrightarrow> p < 2 ^ k \<Longrightarrow>
    T ! (2 ^ k + p) = subtreeRoot hf (D - k) (take (2 ^ (D - k)) (drop (p * 2 ^ (D - k)) xs))"
proof (induction "D - k" arbitrary: k p)
  case 0
  then have k: "k = D" by simp
  with 0 T have "T ! (2 ^ k + p) = js_get xs p" by (simp add: isTree_def)
  also have "\<dots> = subtreeRoot hf 0 (take 1 (drop p xs))"
  proof (cases "p < length xs")
    case True
    then have "drop p xs = xs ! p # drop (Suc p) xs" by (simp add: Cons_nth_drop_Suc)
    with True show ?thesis by (simp add: js_get_def)
  next
    case False
    then show ?thesis by (simp add: js_get_def)
  qed
  finally show ?case using k by simp
next
  case (Suc d)
  then have k: "k < D" and d: "D - Suc k = d" "D - k = Suc d" by simp_all
  let ?j = "2 ^ k + p"
  have j: "1 \<le> ?j" "?j < 2 ^ D"
  proof -
    have "(1::nat) \<le> 2 ^ k" by simp
    then show "1 \<le> ?j" by linarith
    have "2 ^ k + p < 2 ^ Suc k" using Suc.prems by simp
    also have "\<dots> \<le> 2 ^ D" using k by (intro power_increasing) simp_all
    finally show "?j < 2 ^ D" .
  qed
  have l: "T ! (2 ^ Suc k + 2 * p) = subtreeRoot hf d (take (2 ^ d) (drop (2 * p * 2 ^ d) xs))"
    using Suc.hyps(1) [of "Suc k" "2 * p"] Suc.prems k d by simp
  have r: "T ! (2 ^ Suc k + (2 * p + 1)) = subtreeRoot hf d (take (2 ^ d) (drop ((2 * p + 1) * 2 ^ d) xs))"
    using Suc.hyps(1) [of "Suc k" "2 * p + 1"] Suc.prems k d by simp
  have "T ! ?j = parentNode hf (T ! (2 * ?j)) (T ! (2 * ?j + 1))"
    using T j by (simp add: isTree_def)
  also have "2 * ?j = 2 ^ Suc k + 2 * p" by simp
  also have "2 ^ Suc k + 2 * p + 1 = 2 ^ Suc k + (2 * p + 1)" by simp
  finally have "T ! ?j = parentNode hf (subtreeRoot hf d (take (2 ^ d) (drop (2 * p * 2 ^ d) xs)))
      (subtreeRoot hf d (take (2 ^ d) (drop ((2 * p + 1) * 2 ^ d) xs)))"
    using l r by simp
  also have "\<dots> = subtreeRoot hf (Suc d) (take (2 ^ Suc d) (drop (p * 2 ^ Suc d) xs))"
    by (simp add: take_drop min_def add.commute mult.commute mult.left_commute algebra_simps)
  finally show ?case using d by simp
qed

lemma isTree_defined_iff:
  assumes T: "isTree hf (2 ^ D) xs T" and k: "k \<le> D" and p: "p < 2 ^ k"
  shows "T ! (2 ^ k + p) = None \<longleftrightarrow> length xs \<le> p * 2 ^ (D - k)"
  by (simp add: isTree_node [OF T k p] subtreeRoot_None_iff)

lemma isTree_left_defined:
  assumes T: "isTree hf (2 ^ D) xs T" and j: "1 \<le> j" "j < 2 ^ D" and r: "T ! (2 * j + 1) \<noteq> None"
  shows "T ! (2 * j) \<noteq> None"
proof -
  from node_decompose [OF j] obtain k p where kp: "k < D" "p < 2 ^ k" "j = 2 ^ k + p" by blast
  have a: "2 * j + 1 = 2 ^ Suc k + (2 * p + 1)" "2 * j = 2 ^ Suc k + 2 * p" using kp by simp_all
  have b: "Suc k \<le> D" "2 * p + 1 < 2 ^ Suc k" "2 * p < 2 ^ Suc k" using kp by simp_all
  have "T ! (2 ^ Suc k + (2 * p + 1)) \<noteq> None" using r a by simp
  then have "\<not> length xs \<le> (2 * p + 1) * 2 ^ (D - Suc k)"
    using isTree_defined_iff [OF T b(1) b(2)] by metis
  then have "\<not> length xs \<le> (2 * p) * 2 ^ (D - Suc k)" by (simp add: algebra_simps)
  then have "T ! (2 ^ Suc k + 2 * p) \<noteq> None"
    using isTree_defined_iff [OF T b(1) b(3)] by metis
  then show ?thesis using a by simp
qed

lemma mod_add_distinct:
  assumes "a < b" "b - a < (m::nat)"
  shows "(r + a) mod m \<noteq> (r + b) mod m"
proof
  assume "(r + a) mod m = (r + b) mod m"
  then have "(r + b) mod m = (r + a) mod m" by simp
  then have "m dvd (r + b) - (r + a)"
    using assms by (simp add: mod_eq_dvd_iff_nat)
  then have "m dvd b - a" by simp
  with assms show False by (auto dest: dvd_imp_le)
qed

lemma mod_shift: "(Suc r mod m + k) mod m = Suc (r + k) mod (m::nat)"
proof -
  have "(Suc r mod m + k) mod m = (Suc r + k) mod m" by (rule mod_add_left_eq)
  then show ?thesis by simp
qed

lemma mod_shift2: "Suc (Suc r mod m + k) mod m = Suc (Suc (r + k)) mod (m::nat)"
proof -
  have "Suc (Suc r mod m + k) mod m = (Suc r mod m + Suc k) mod m" by simp
  also have "\<dots> = (Suc r + Suc k) mod m" by (rule mod_add_left_eq)
  finally show ?thesis by simp
qed

lemma window_pop:
  assumes "window hs r (x # q)"
  shows "hs ! r = x" and "window hs (Suc r mod length hs) q"
proof -
  from assms have r: "r < length hs" and len: "Suc (length q) \<le> length hs"
    and nth: "\<And>k. k < Suc (length q) \<Longrightarrow> hs ! ((r + k) mod length hs) = (x # q) ! k"
    by (simp_all add: window_def)
  from nth [of 0] r show "hs ! r = x" by simp
  have "hs ! ((Suc r mod length hs + k) mod length hs) = q ! k" if "k < length q" for k
  proof -
    have "(Suc r mod length hs + k) mod length hs = (r + Suc k) mod length hs"
      by (simp add: mod_shift)
    with nth [of "Suc k"] that show ?thesis by simp
  qed
  moreover from r have "0 < length hs" by linarith
  then have "Suc r mod length hs < length hs" by simp
  ultimately show "window hs (Suc r mod length hs) q"
    using len by (simp add: window_def)
qed

lemma window_push:
  assumes "window hs r q" "length q < length hs"
  shows "window (hs[(r + length q) mod length hs := v]) r (q @ [v])"
proof -
  from assms have r: "r < length hs"
    and nth: "\<And>k. k < length q \<Longrightarrow> hs ! ((r + k) mod length hs) = q ! k"
    by (simp_all add: window_def)
  have "(hs[(r + length q) mod length hs := v]) ! ((r + k) mod length hs) = (q @ [v]) ! k"
    if k: "k < Suc (length q)" for k
  proof (cases "k = length q")
    case True
    from r have "0 < length hs" by linarith
    then have "(r + length q) mod length hs < length hs" by simp
    with True show ?thesis by simp
  next
    case False
    with k have kk: "k < length q" by simp
    with assms(2) have "(r + k) mod length hs \<noteq> (r + length q) mod length hs"
      by (intro mod_add_distinct) simp_all
    with kk nth [of k] show ?thesis by (simp add: nth_append)
  qed
  with r assms(2) show ?thesis by (simp add: window_def)
qed

lemma absQ_root:
  assumes "absQ m st q"
  shows "rootCell m st = Some (last q)"
proof -
  from assms have len: "length (hashes st) = m" and w: "window (hashes st) (readIndex st) q"
    and ne: "q \<noteq> []" and wi: "writeIndex st = (readIndex st + length q) mod m"
    by (simp_all add: absQ_def)
  from w len have m: "0 < m" by (auto simp: window_def)
  define n where "n = readIndex st + (length q - 1)"
  from ne have sn: "readIndex st + length q = Suc n" by (cases q) (simp_all add: n_def)
  from w ne len have lastq: "hashes st ! (n mod m) = last q"
    by (simp add: window_def n_def last_conv_nth)
  have idx: "(if writeIndex st = 0 then m else writeIndex st) - 1 = n mod m"
    using m by (auto simp: wi sn mod_Suc)
  have nz: "(if writeIndex st = 0 then m else writeIndex st) \<noteq> 0"
    using m by simp
  have lt: "n mod m < length (hashes st)" using m len by simp
  show ?thesis
    unfolding rootCell_def Let_def using nz idx lastq lt
    by (simp add: js_get_def)
qed

lemma hashStep_refines:
  assumes a: "absQ m st q" and d: "decommitmentIndex st \<le> length dcs"
    and run: "runSteps (hashFunction opts) [(f, s, od)] (drop (decommitmentIndex st) dcs) q = Some (q', ds')"
  shows "\<exists>st'. hashStep opts m dcs f s od st = Inr st' \<and> absQ m st' q' \<and>
           decommitmentIndex st' \<le> length dcs \<and> drop (decommitmentIndex st') dcs = ds'"
proof -
  from a have len: "length (hashes st) = m" and w: "window (hashes st) (readIndex st) q"
    and ne: "q \<noteq> []" and wi: "writeIndex st = (readIndex st + length q) mod m"
    by (simp_all add: absQ_def)
  from w len have m: "0 < m" and qm: "length q \<le> m" and r: "readIndex st < m"
    by (auto simp: window_def)
  from ne obtain x q1 where q: "q = x # q1" by (cases q) auto
  note p1 = window_pop [OF w [unfolded q]]
  have wi1: "writeIndex st = (Suc (readIndex st) mod m + length q1) mod m"
    by (simp add: wi q mod_Suc_eq mod_shift mod_shift2)
  show ?thesis
  proof (cases s)
    case True
    with run q have res: "q' = q1 @ [x]" "ds' = drop (decommitmentIndex st) dcs" by simp_all
    let ?st = "st\<lparr>hashes := (hashes st)[writeIndex st := hashes st ! readIndex st],
                   readIndex := Suc (readIndex st) mod m,
                   writeIndex := Suc (writeIndex st) mod m\<rparr>"
    have "window ((hashes st)[writeIndex st := x]) (Suc (readIndex st) mod m) (q1 @ [x])"
      using window_push [OF p1(2), of x] qm q len wi1 by simp
    moreover have "Suc (writeIndex st) mod m = (Suc (readIndex st) mod m + length (q1 @ [x])) mod m"
      by (simp add: wi q mod_Suc_eq mod_shift mod_shift2)
    ultimately have "absQ m ?st q'"
      using len p1(1) res by (simp add: absQ_def)
    with True d res show ?thesis by (simp add: hashStep_def)
  next
    case False
    note s = this
    show ?thesis
    proof (cases f)
      case True
      with s run q obtain y q2 where q1: "q1 = y # q2"
        by (cases q1) auto
      from True s run q q1 have res: "q' = q2 @ [if od then hashFunction opts y x else hashFunction opts x y]"
        "ds' = drop (decommitmentIndex st) dcs" by simp_all
      note p2 = window_pop [OF p1(2) [unfolded q1]]
      let ?r1 = "Suc (readIndex st) mod m"
      let ?h = "if od then hashFunction opts y x else hashFunction opts x y"
      have r1: "?r1 < m" using m by simp
      have wi2: "writeIndex st = (Suc ?r1 mod m + length q2) mod m"
        by (simp add: wi q q1 mod_Suc_eq mod_shift mod_shift2)
      let ?st = "st\<lparr>hashes := (hashes st)[writeIndex st := ?h],
                     readIndex := Suc ?r1 mod m,
                     writeIndex := Suc (writeIndex st) mod m,
                     decommitmentIndex := decommitmentIndex st\<rparr>"
      have "window ((hashes st)[writeIndex st := ?h]) (Suc ?r1 mod m) (q2 @ [?h])"
        using window_push [OF p2(2) [unfolded len], of ?h] qm q q1 len wi2 by simp
      moreover have "Suc (writeIndex st) mod m = (Suc ?r1 mod m + length (q2 @ [?h])) mod m"
        by (simp add: wi q q1 mod_Suc_eq mod_shift mod_shift2)
      ultimately have ab: "absQ m ?st q'"
        using len res by (simp add: absQ_def)
      have "hashStep opts m dcs f s od st = Inr ?st"
        using True s r r1 len p1(1) p2(1) [unfolded len]
        by (simp add: hashStep_def Let_def js_get_def applyHash_def)
      with ab d res show ?thesis by simp
    next
      case False
      with s run q obtain dd where dd: "drop (decommitmentIndex st) dcs = dd # ds'"
        by (cases "drop (decommitmentIndex st) dcs") auto
      from False s run q dd have res: "q' = q1 @ [if od then hashFunction opts x dd else hashFunction opts dd x]"
        by simp
      from dd have dlt: "decommitmentIndex st < length dcs"
        by (cases "decommitmentIndex st < length dcs") simp_all
      with dd have dnth: "dcs ! decommitmentIndex st = dd" and ddrop: "drop (Suc (decommitmentIndex st)) dcs = ds'"
        by (simp_all add: Cons_nth_drop_Suc [symmetric])
      let ?h = "if od then hashFunction opts x dd else hashFunction opts dd x"
      let ?st = "st\<lparr>hashes := (hashes st)[writeIndex st := ?h],
                     readIndex := Suc (readIndex st) mod m,
                     writeIndex := Suc (writeIndex st) mod m,
                     decommitmentIndex := Suc (decommitmentIndex st)\<rparr>"
      have "window ((hashes st)[writeIndex st := ?h]) (Suc (readIndex st) mod m) (q1 @ [?h])"
        using window_push [OF p1(2), of ?h] qm q len wi1 by simp
      moreover have "Suc (writeIndex st) mod m = (Suc (readIndex st) mod m + length (q1 @ [?h])) mod m"
        by (simp add: wi q mod_Suc_eq mod_shift mod_shift2)
      ultimately have ab: "absQ m ?st q'"
        using len res by (simp add: absQ_def)
      have "hashStep opts m dcs f s od st = Inr ?st"
        using False s r len p1(1) dlt dnth
        by (simp add: hashStep_def Let_def js_get_def applyHash_def)
      with ab dlt ddrop show ?thesis by simp
    qed
  qed
qed

lemma runSteps_Cons:
  "runSteps hf (x # rest) ds q =
     (case runSteps hf [x] ds q of None \<Rightarrow> None | Some (q1, ds1) \<Rightarrow> runSteps hf rest ds1 q1)"
  by (cases x) (auto split: list.splits)

lemma getRootBooleansLoop_refines:
  assumes "absQ m st q" "decommitmentIndex st \<le> length dcs"
    and "runSteps (hashFunction opts) (map (\<lambda>i. (js_bool fl i, js_bool sk i, js_bool os i)) is)
           (drop (decommitmentIndex st) dcs) q = Some (q', ds')"
  shows "\<exists>st'. getRootBooleansLoop opts m fl sk os dcs is st = Inr st' \<and> absQ m st' q' \<and>
           decommitmentIndex st' \<le> length dcs \<and> drop (decommitmentIndex st') dcs = ds'"
  using assms
proof (induction "is" arbitrary: st q)
  case Nil
  then show ?case by simp
next
  case (Cons i rest)
  let ?x = "(js_bool fl i, js_bool sk i, js_bool os i)"
  from Cons.prems(3) obtain q1 ds1 where
    one: "runSteps (hashFunction opts) [?x] (drop (decommitmentIndex st) dcs) q = Some (q1, ds1)"
    and more: "runSteps (hashFunction opts) (map (\<lambda>i. (js_bool fl i, js_bool sk i, js_bool os i)) rest) ds1 q1 = Some (q', ds')"
    using runSteps_Cons [of "hashFunction opts" ?x
        "map (\<lambda>i. (js_bool fl i, js_bool sk i, js_bool os i)) rest"
        "drop (decommitmentIndex st) dcs" q]
    by (cases "runSteps (hashFunction opts) [?x] (drop (decommitmentIndex st) dcs) q") auto
  from hashStep_refines [OF Cons.prems(1,2) one] obtain st1 where
    st1: "hashStep opts m dcs (js_bool fl i) (js_bool sk i) (js_bool os i) st = Inr st1"
      "absQ m st1 q1" "decommitmentIndex st1 \<le> length dcs" "drop (decommitmentIndex st1) dcs = ds1"
    by blast
  from Cons.IH [OF st1(2,3)] more st1(4) obtain st' where
    "getRootBooleansLoop opts m fl sk os dcs rest st1 = Inr st'" "absQ m st' q'"
    "decommitmentIndex st' \<le> length dcs" "drop (decommitmentIndex st') dcs = ds'"
    by auto
  with st1(1) show ?case by simp
qed

lemma genStep_known: "known (genStep T i s) = (known s)(i := known s (2 * i) \<or> known s (2 * i + 1))"
  by (simp add: genStep_def Let_def)

lemma genStep_relevant:
  "relevant (genStep T i s) = (if relevant s i then (relevant s)(i div 2 := True) else relevant s)"
  by (simp add: genStep_def Let_def)

lemma genStep_decs:
  "decs (genStep T i s) =
     (if known s (2 * i) \<noteq> known s (2 * i + 1)
      then decs s @ [js_nth T (2 * i + (if known s (2 * i) then 1 else 0))] else decs s)"
  by (simp add: genStep_def Let_def)

lemma genStep_flags:
  "flagsAcc (genStep T i s) =
     (if relevant s i then flagsAcc s @ [known s (2 * i) = known s (2 * i + 1)] else flagsAcc s)"
  by (simp add: genStep_def Let_def)

lemma genStep_skips:
  "skipsAcc (genStep T i s) =
     (if relevant s i then skipsAcc s @ [js_nth T (2 * i + (if known s (2 * i) then 1 else 0)) = None]
      else skipsAcc s)"
  by (simp add: genStep_def Let_def)

lemma genStep_orders:
  "ordersAcc (genStep T i s) = (if relevant s i then ordersAcc s @ [known s (2 * i)] else ordersAcc s)"
  by (simp add: genStep_def Let_def)

lemma runSteps_append:
  "runSteps hf xs ds q = Some (q1, ds1) \<Longrightarrow>
   runSteps hf (xs @ ys) (ds @ es) q = runSteps hf ys (ds1 @ es) q1"
proof (induction xs arbitrary: ds q)
  case Nil
  then show ?case by simp
next
  case (Cons x xs)
  obtain f s od where x: "x = (f, s, od)" by (cases x)
  from Cons.prems show ?case
    unfolding x by (auto split: if_splits list.splits intro: Cons.IH)
qed

lemma runSteps_nonempty:
  "q \<noteq> [] \<Longrightarrow> runSteps hf xs ds q \<noteq> Some ([], ds1)"
proof (induction xs arbitrary: ds q)
  case Nil
  then show ?case by simp
next
  case (Cons x xs)
  obtain f s od where x: "x = (f, s, od)" by (cases x)
  from Cons.prems show ?case
    unfolding x by (auto split: if_splits list.splits simp: Cons.IH)
qed

lemma ctl_step:
  assumes c: "ctl i s" and i: "1 \<le> i"
  shows "ctl (i - 1) (genStep T i s)"
proof -
  from c i have rel: "relevant s i \<longleftrightarrow> known s (2 * i) \<or> known s (2 * i + 1)"
    and old: "\<And>j. 1 \<le> j \<Longrightarrow> j \<le> i \<Longrightarrow> relevant s j \<longleftrightarrow> known s (2 * j) \<or> known s (2 * j + 1)"
    and nk: "\<And>j. j \<le> i \<Longrightarrow> \<not> known s j"
    by (auto simp: ctl_def)
  have a: "relevant (genStep T i s) j \<longleftrightarrow> known (genStep T i s) (2 * j) \<or> known (genStep T i s) (2 * j + 1)"
    if j: "1 \<le> j" "j \<le> i - 1" for j
  proof -
    from j i have ji: "j \<le> i" "j \<noteq> i" by simp_all
    consider (l) "2 * j = i" | (r) "2 * j + 1 = i" | (o) "2 * j \<noteq> i" "2 * j + 1 \<noteq> i" by blast
    then show ?thesis
    proof cases
      case l
      then have "i div 2 = j" by auto
      with l old [OF j(1) ji(1)] nk [of i] rel show ?thesis
        by (auto simp: genStep_known genStep_relevant)
    next
      case r
      then have "i div 2 = j" by auto
      with r old [OF j(1) ji(1)] nk [of i] rel show ?thesis
        by (auto simp: genStep_known genStep_relevant)
    next
      case o
      then have "i div 2 \<noteq> j" by auto
      with o old [OF j(1) ji(1)] show ?thesis
        by (auto simp: genStep_known genStep_relevant)
    qed
  qed
  have b: "\<not> known (genStep T i s) j" if "j \<le> i - 1" for j
  proof -
    from that i have "j \<le> i" "j \<noteq> i" by simp_all
    with nk [of j] show ?thesis by (simp add: genStep_known)
  qed
  from a b show ?thesis by (simp add: ctl_def)
qed

lemma agree_step:
  assumes T: "isTree hf (2 ^ D) xs T" and T': "isTree hf (2 ^ D) xs' T'"
    and c: "ctl i s" and a: "agree (2 ^ D) T T' i s" and i: "1 \<le> i" "i < 2 ^ D"
  shows "agree (2 ^ D) T T' (i - 1) (genStep T i s)"
proof -
  have i2: "i < 2 * i" "2 * i < 2 * 2 ^ D" "i < 2 * i + 1" "2 * i + 1 < 2 * 2 ^ D" using i by simp_all
  from a i2 have l: "if known s (2 * i) then T ! (2 * i) \<noteq> None \<and> T' ! (2 * i) \<noteq> None
      else T' ! (2 * i) = T ! (2 * i)"
    and r: "if known s (2 * i + 1) then T ! (2 * i + 1) \<noteq> None \<and> T' ! (2 * i + 1) \<noteq> None
      else T' ! (2 * i + 1) = T ! (2 * i + 1)"
    unfolding agree_def by blast+
  have loc: "T ! i = parentNode hf (T ! (2 * i)) (T ! (2 * i + 1))"
    and loc': "T' ! i = parentNode hf (T' ! (2 * i)) (T' ! (2 * i + 1))"
    using T T' i by (simp_all add: isTree_def)
  have ld: "T ! (2 * i + 1) \<noteq> None \<Longrightarrow> T ! (2 * i) \<noteq> None"
    and ld': "T' ! (2 * i + 1) \<noteq> None \<Longrightarrow> T' ! (2 * i) \<noteq> None"
    using isTree_left_defined [OF T i] isTree_left_defined [OF T' i] by blast+
  have here: "if known s (2 * i) \<or> known s (2 * i + 1) then T ! i \<noteq> None \<and> T' ! i \<noteq> None
      else T' ! i = T ! i"
    using l r ld ld' unfolding loc loc'
    by (auto simp: parentNode_def split: option.splits if_splits)
  have "if known (genStep T i s) j then T ! j \<noteq> None \<and> T' ! j \<noteq> None else T' ! j = T ! j"
    if j: "i - 1 < j" "j < 2 * 2 ^ D" for j
  proof (cases "j = i")
    case True
    with here show ?thesis by (simp add: genStep_known)
  next
    case False
    with j have "i < j" by simp
    with a j False show ?thesis
      unfolding agree_def by (simp add: genStep_known)
  qed
  then show ?thesis unfolding agree_def by blast
qed

lemma upt_children: "1 \<le> i \<Longrightarrow> [Suc i..<2 * i + 2] = [Suc i..<2 * i] @ [2 * i, 2 * i + 1]"
proof -
  assume i: "1 \<le> i"
  have "[Suc i..<2 * i + 2] = [Suc i..<2 * i] @ [2 * i..<2 * i + 2]"
    using i by (intro upt_add_eq_append) simp
  moreover have "[2 * i..<2 * i + 2] = [2 * i, 2 * i + 1]"
    by (simp add: upt_conv_Cons)
  ultimately show ?thesis by simp
qed

lemma queueAt_top:
  assumes "1 \<le> i"
  shows "queueAt T K i =
     (if K (2 * i + 1) then [the (T ! (2 * i + 1))] else []) @
     (if K (2 * i) then [the (T ! (2 * i))] else []) @
     map (\<lambda>j. the (T ! j)) (filter K (rev [Suc i..<2 * i]))"
  unfolding queueAt_def upt_children [OF assms] by simp

lemma queueAt_below:
  assumes "1 \<le> i"
  shows "queueAt T (K(i := b)) (i - 1) =
     map (\<lambda>j. the (T ! j)) (filter K (rev [Suc i..<2 * i])) @ (if b then [the (T ! i)] else [])"
proof -
  from assms obtain n where n: "i = Suc n" by (cases i) auto
  have "[Suc (i - 1)..<2 * (i - 1) + 2] = [i..<2 * i]" unfolding n by simp
  also have "\<dots> = i # [Suc i..<2 * i]" using assms by (intro upt_conv_Cons) simp
  finally have "[Suc (i - 1)..<2 * (i - 1) + 2] = i # [Suc i..<2 * i]" .
  moreover have "filter (K(i := b)) (rev [Suc i..<2 * i]) = filter K (rev [Suc i..<2 * i])"
    by (rule filter_cong) auto
  ultimately show ?thesis by (simp add: queueAt_def)
qed

lemma zip3_snoc:
  "length a = length b \<Longrightarrow> length c = length b \<Longrightarrow>
   zip (a @ [x]) (zip (b @ [y]) (c @ [z])) = zip a (zip b c) @ [(x, y, z)]"
  by simp

lemma ran_step:
  assumes T: "isTree hf (2 ^ D) xs T" and T': "isTree hf (2 ^ D) xs' T'"
    and c: "ctl i s" and a: "agree (2 ^ D) T T' i s" and rn: "ran hf T' q0 i s"
    and i: "1 \<le> i" "i < 2 ^ D"
  shows "ran hf T' q0 (i - 1) (genStep T i s)"
proof -
  let ?l = "known s (2 * i)" and ?r = "known s (2 * i + 1)"
  let ?M = "map (\<lambda>j. the (T' ! j)) (filter (known s) (rev [Suc i..<2 * i]))"
  let ?s = "genStep T i s"
  from c i have rel: "relevant s i \<longleftrightarrow> ?l \<or> ?r" by (auto simp: ctl_def)
  have i2: "i < 2 * i" "2 * i < 2 * 2 ^ D" "i < 2 * i + 1" "2 * i + 1 < 2 * 2 ^ D" using i by simp_all
  from a i2 have l: "if ?l then T ! (2 * i) \<noteq> None \<and> T' ! (2 * i) \<noteq> None
      else T' ! (2 * i) = T ! (2 * i)"
    and r: "if ?r then T ! (2 * i + 1) \<noteq> None \<and> T' ! (2 * i + 1) \<noteq> None
      else T' ! (2 * i + 1) = T ! (2 * i + 1)"
    unfolding agree_def by blast+
  have lenT: "length T = 2 * 2 ^ D" using T by (simp add: isTree_def)
  have sib: "js_nth T (2 * i + (if ?l then 1 else 0)) = T ! (2 * i + (if ?l then 1 else 0))"
    using i2 lenT by (simp add: js_nth_def)
  have loc': "T' ! i = parentNode hf (T' ! (2 * i)) (T' ! (2 * i + 1))"
    using T' i by (simp add: isTree_def)
  have ld: "T ! (2 * i + 1) \<noteq> None \<Longrightarrow> T ! (2 * i) \<noteq> None"
    using isTree_left_defined [OF T i] by blast
  from rn have len: "length (flagsAcc s) = length (skipsAcc s)" "length (ordersAcc s) = length (skipsAcc s)"
    and run: "runSteps hf (stepsOf s) (decsOf s) q0 = Some (queueAt T' (known s) i, [])"
    and ns: "\<forall>x\<in>set (stepsOf s). \<not> (fst x \<and> fst (snd x))"
    and cnt: "length (decsOf s) = length (filter (\<lambda>x. \<not> fst x \<and> \<not> fst (snd x)) (stepsOf s))"
    by (simp_all add: ran_def)
  note top = queueAt_top [OF i(1), of T' "known s"]
  note below = queueAt_below [OF i(1), of T' "known s" "?l \<or> ?r"]
  have kn: "known ?s = (known s)(i := ?l \<or> ?r)" by (rule genStep_known)
  show ?thesis
  proof (cases "?l \<or> ?r")
    case False
    then have nl: "\<not> ?l" "\<not> ?r" by simp_all
    with rel have nrel: "\<not> relevant s i" by simp
    have st: "stepsOf ?s = stepsOf s" "decsOf ?s = decsOf s"
      using nl nrel by (simp_all add: stepsOf_def decsOf_def genStep_flags genStep_skips genStep_orders genStep_decs)
    have "queueAt T' (known ?s) (i - 1) = queueAt T' (known s) i"
      unfolding kn below top using nl by simp
    with st len run ns cnt nrel show ?thesis
      by (simp add: ran_def genStep_flags genStep_skips genStep_orders)
  next
    case True
    with rel have yrel: "relevant s i" by simp
    let ?sib = "T ! (2 * i + (if ?l then 1 else 0))"
    let ?x = "(?l = ?r, ?sib = None, ?l)"
    have st: "stepsOf ?s = stepsOf s @ [?x]"
      using yrel len sib by (simp add: stepsOf_def genStep_flags genStep_skips genStep_orders)
    have lens: "length (flagsAcc ?s) = length (skipsAcc ?s)" "length (ordersAcc ?s) = length (skipsAcc ?s)"
      using yrel len by (simp_all add: genStep_flags genStep_skips genStep_orders)
    have qnew: "queueAt T' (known ?s) (i - 1) = ?M @ [the (T' ! i)]"
      unfolding kn below using True by simp
    consider (both) "?l" "?r" | (left) "?l" "\<not> ?r" | (right) "\<not> ?l" "?r" using True by blast
    then show ?thesis
    proof cases
      case both
      with l r obtain yl yr where y: "T' ! (2 * i) = Some yl" "T' ! (2 * i + 1) = Some yr"
        and sd: "?sib \<noteq> None" by auto
      have dc: "decsOf ?s = decsOf s" using both by (simp add: decsOf_def genStep_decs)
      have q: "queueAt T' (known s) i = yr # yl # ?M" unfolding top using both y by simp
      have ti: "the (T' ! i) = hf yl yr" unfolding loc' y by (simp add: parentNode_def)
      have "runSteps hf (stepsOf s @ [?x]) (decsOf s @ []) q0 = runSteps hf [?x] ([] @ []) (queueAt T' (known s) i)"
        by (rule runSteps_append [OF run])
      also have "\<dots> = Some (?M @ [the (T' ! i)], [])"
        unfolding q ti using both sd by simp
      finally have "runSteps hf (stepsOf ?s) (decsOf ?s) q0 = Some (queueAt T' (known ?s) (i - 1), [])"
        unfolding st dc qnew by simp
      moreover have "\<forall>x\<in>set (stepsOf ?s). \<not> (fst x \<and> fst (snd x))"
        unfolding st using ns sd both by simp
      moreover have "length (decsOf ?s) = length (filter (\<lambda>x. \<not> fst x \<and> \<not> fst (snd x)) (stepsOf ?s))"
        unfolding st dc using cnt both by simp
      ultimately show ?thesis using lens by (simp add: ran_def)
    next
      case left
      with l obtain yl where y: "T' ! (2 * i) = Some yl" by auto
      from left r have sr: "T' ! (2 * i + 1) = T ! (2 * i + 1)" by simp
      have q: "queueAt T' (known s) i = yl # ?M" unfolding top using left y by simp
      have ns': "\<forall>x\<in>set (stepsOf ?s). \<not> (fst x \<and> fst (snd x))"
        unfolding st using ns left by simp
      show ?thesis
      proof (cases "T ! (2 * i + 1)")
        case None
        have dc: "decsOf ?s = decsOf s" using left None sib by (simp add: decsOf_def genStep_decs)
        have ti: "the (T' ! i) = yl" unfolding loc' y sr None by (simp add: parentNode_def)
        have "runSteps hf (stepsOf s @ [?x]) (decsOf s @ []) q0 = runSteps hf [?x] ([] @ []) (queueAt T' (known s) i)"
          by (rule runSteps_append [OF run])
        also have "\<dots> = Some (?M @ [the (T' ! i)], [])"
          unfolding q ti using left None by simp
        finally have "runSteps hf (stepsOf ?s) (decsOf ?s) q0 = Some (queueAt T' (known ?s) (i - 1), [])"
          unfolding st dc qnew by simp
        moreover have "length (decsOf ?s) = length (filter (\<lambda>x. \<not> fst x \<and> \<not> fst (snd x)) (stepsOf ?s))"
          unfolding st dc using cnt left None by simp
        ultimately show ?thesis using lens ns' by (simp add: ran_def)
      next
        case (Some yr)
        have dc: "decsOf ?s = decsOf s @ [yr]" using left Some sib by (simp add: decsOf_def genStep_decs)
        have ti: "the (T' ! i) = hf yl yr" unfolding loc' y sr Some by (simp add: parentNode_def)
        have "runSteps hf (stepsOf s @ [?x]) (decsOf s @ [yr]) q0 = runSteps hf [?x] ([] @ [yr]) (queueAt T' (known s) i)"
          by (rule runSteps_append [OF run])
        also have "\<dots> = Some (?M @ [the (T' ! i)], [])"
          unfolding q ti using left Some by simp
        finally have "runSteps hf (stepsOf ?s) (decsOf ?s) q0 = Some (queueAt T' (known ?s) (i - 1), [])"
          unfolding st dc qnew by simp
        moreover have "length (decsOf ?s) = length (filter (\<lambda>x. \<not> fst x \<and> \<not> fst (snd x)) (stepsOf ?s))"
          unfolding st dc using cnt left Some by simp
        ultimately show ?thesis using lens ns' by (simp add: ran_def)
      qed
    next
      case right
      with r obtain yr where y: "T' ! (2 * i + 1) = Some yr" and tr: "T ! (2 * i + 1) \<noteq> None" by auto
      from ld [OF tr] obtain yl where tl: "T ! (2 * i) = Some yl" by auto
      from right l tl have y': "T' ! (2 * i) = Some yl" by simp
      have q: "queueAt T' (known s) i = yr # ?M" unfolding top using right y by simp
      have dc: "decsOf ?s = decsOf s @ [yl]" using right tl sib by (simp add: decsOf_def genStep_decs)
      have ti: "the (T' ! i) = hf yl yr" unfolding loc' y y' by (simp add: parentNode_def)
      have "runSteps hf (stepsOf s @ [?x]) (decsOf s @ [yl]) q0 = runSteps hf [?x] ([] @ [yl]) (queueAt T' (known s) i)"
        by (rule runSteps_append [OF run])
      also have "\<dots> = Some (?M @ [the (T' ! i)], [])"
        unfolding q ti using right tl by simp
      finally have "runSteps hf (stepsOf ?s) (decsOf ?s) q0 = Some (queueAt T' (known ?s) (i - 1), [])"
        unfolding st dc qnew by simp
      moreover have "\<forall>x\<in>set (stepsOf ?s). \<not> (fst x \<and> fst (snd x))"
        unfolding st using ns right by simp
      moreover have "length (decsOf ?s) = length (filter (\<lambda>x. \<not> fst x \<and> \<not> fst (snd x)) (stepsOf ?s))"
        unfolding st dc using cnt right tl by simp
      ultimately show ?thesis using lens by (simp add: ran_def)
    qed
  qed
qed

lemma genLoop_inv:
  assumes T: "isTree hf (2 ^ D) xs T" and T': "isTree hf (2 ^ D) xs' T'"
  shows "genInv hf (2 ^ D) T T' q0 n s \<Longrightarrow> n < 2 ^ D \<Longrightarrow> genInv hf (2 ^ D) T T' q0 0 (genLoop T n s)"
proof (induction n arbitrary: s)
  case 0
  then show ?case by simp
next
  case (Suc n)
  from Suc.prems have c: "ctl (Suc n) s" and a: "agree (2 ^ D) T T' (Suc n) s"
    and r: "ran hf T' q0 (Suc n) s" by (simp_all add: genInv_def)
  have i: "1 \<le> Suc n" "Suc n < 2 ^ D" using Suc.prems by simp_all
  have "genInv hf (2 ^ D) T T' q0 n (genStep T (Suc n) s)"
    using ctl_step [OF c i(1), of T] agree_step [OF T T' c a i] ran_step [OF T T' c a r i]
    by (simp add: genInv_def)
  with Suc.IH [of "genStep T (Suc n) s"] Suc.prems(2) show ?case by simp
qed

lemma markLoop_fields:
  "markLoop indices L is s = Inr s' \<Longrightarrow>
     (\<forall>j. known s' j \<longleftrightarrow> known s j \<or> (\<exists>i\<in>set is. j = L + indices ! i)) \<and>
     (\<forall>j. relevant s' j \<longleftrightarrow> relevant s j \<or> (\<exists>i\<in>set is. j = (L + indices ! i) div 2)) \<and>
     decs s' = decs s \<and> flagsAcc s' = flagsAcc s \<and> skipsAcc s' = skipsAcc s \<and>
     ordersAcc s' = ordersAcc s"
proof (induction "is" arbitrary: s)
  case Nil
  then show ?case by simp
next
  case (Cons i rest)
  let ?s = "s\<lparr>known := (known s)(L + indices ! i := True),
               relevant := (relevant s)((L + indices ! i) div 2 := True)\<rparr>"
  from Cons.prems have "markLoop indices L rest ?s = Inr s'"
    by (simp split: if_splits)
  from Cons.IH [OF this] show ?case by auto
qed

lemma markLoop_sorted:
  assumes "sorted indices"
  obtains s0 where "markLoop indices L [0..<length indices] initGen = Inr s0"
    and "\<And>j. known s0 j \<longleftrightarrow> (\<exists>x\<in>set indices. j = L + x)"
    and "\<And>j. relevant s0 j \<longleftrightarrow> (\<exists>x\<in>set indices. j = (L + x) div 2)"
    and "decs s0 = []" "flagsAcc s0 = []" "skipsAcc s0 = []" "ordersAcc s0 = []"
proof -
  have "markLoop indices L [0..<length indices] initGen \<noteq> Inl e" for e
    using assms markLoop_unsorted_iff [of indices L "[0..<length indices]" initGen e]
      descending_pair_iff [of indices] by blast
  then obtain s0 where s0: "markLoop indices L [0..<length indices] initGen = Inr s0"
    by (cases "markLoop indices L [0..<length indices] initGen") auto
  have set: "(\<exists>i\<in>set [0..<length indices]. P (indices ! i)) \<longleftrightarrow> (\<exists>x\<in>set indices. P x)" for P
  proof
    assume "\<exists>i\<in>set [0..<length indices]. P (indices ! i)"
    then obtain i where "i < length indices" "P (indices ! i)" by auto
    then show "\<exists>x\<in>set indices. P x" using nth_mem by blast
  next
    assume "\<exists>x\<in>set indices. P x"
    then obtain i where "i < length indices" "P (indices ! i)" by (auto simp: in_set_conv_nth)
    then have "i \<in> set [0..<length indices]" by simp
    with \<open>P (indices ! i)\<close> show "\<exists>i\<in>set [0..<length indices]. P (indices ! i)" by blast
  qed
  note f = markLoop_fields [OF s0]
  have k: "known s0 j \<longleftrightarrow> (\<exists>x\<in>set indices. j = L + x)" for j
    using f set [of "\<lambda>x. j = L + x"] by (simp add: initGen_def)
  have r: "relevant s0 j \<longleftrightarrow> (\<exists>x\<in>set indices. j = (L + x) div 2)" for j
    using f set [of "\<lambda>x. j = (L + x) div 2"] by (simp add: initGen_def)
  have e: "decs s0 = []" "flagsAcc s0 = []" "skipsAcc s0 = []" "ordersAcc s0 = []"
    using f by (simp_all add: initGen_def)
  from s0 k r e show ?thesis by (rule that)
qed

lemma generateBooleans_finalGen:
  assumes "sorted indices"
  shows "generateBooleans T n indices options =
     Inr \<lparr>elementCount = n, compactProof = [], decommitments = decsOf (finalGen T indices),
          flags = flagsAcc (finalGen T indices), skips = skipsAcc (finalGen T indices),
          orders = (if \<not> sortedHash options then Some (ordersAcc (finalGen T indices)) else None)\<rparr>"
proof -
  from markLoop_sorted [OF assms, of "length T div 2"] obtain s0 where
    "markLoop indices (length T div 2) [0..<length indices] initGen = Inr s0" by metis
  then show ?thesis
    by (simp add: generateBooleans_def finalGen_def decsOf_def Let_def)
qed

lemma filter_upt_sorted:
  assumes "sorted_wrt (<) (xs :: nat list)" "\<forall>x\<in>set xs. x < L"
  shows "filter (\<lambda>j. \<exists>x\<in>set xs. j = L + x) [L..<2 * L] = map (\<lambda>x. L + x) xs"
proof -
  have a: "[L..<2 * L] = map (\<lambda>i. L + i) [0..<L]"
    using map_add_upt [of L L] by (simp add: add.commute mult_2)
  have "filter (\<lambda>i. i \<in> set xs) [0..<L] = xs"
  proof (rule sorted_distinct_set_unique)
    show "sorted (filter (\<lambda>i. i \<in> set xs) [0..<L])" by (simp add: sorted_wrt_filter)
    show "distinct (filter (\<lambda>i. i \<in> set xs) [0..<L])" by simp
    show "sorted xs" "distinct xs" using assms(1) by (simp_all add: strict_sorted_iff)
    show "set (filter (\<lambda>i. i \<in> set xs) [0..<L]) = set xs" using assms(2) by auto
  qed
  then show ?thesis
    unfolding a by (simp add: filter_map comp_def)
qed

lemma init_genInv:
  assumes T: "isTree hf (2 ^ D) xs T" and T': "isTree hf (2 ^ D) xs' T'"
    and len: "length xs' = length xs"
    and srt: "sorted_wrt (<) indices" and rng: "\<forall>i\<in>set indices. i < length xs"
    and same: "\<forall>i<length xs. i \<notin> set indices \<longrightarrow> xs' ! i = xs ! i"
    and s0: "markLoop indices (2 ^ D) [0..<length indices] initGen = Inr s0"
  shows "genInv hf (2 ^ D) T T' (rev (map (\<lambda>i. xs' ! i) indices)) (2 ^ D - 1) s0"
proof -
  let ?L = "2 ^ D :: nat"
  have L: "0 < ?L" by simp
  have "sorted indices" using srt by (rule strict_sorted_imp_sorted)
  from markLoop_sorted [OF this, of ?L] s0 have
    kn: "\<And>j. known s0 j \<longleftrightarrow> (\<exists>x\<in>set indices. j = ?L + x)"
    and rl: "\<And>j. relevant s0 j \<longleftrightarrow> (\<exists>x\<in>set indices. j = (?L + x) div 2)"
    and emp: "decs s0 = []" "flagsAcc s0 = []" "skipsAcc s0 = []" "ordersAcc s0 = []"
    by (metis sum.inject(2))+
  from T T' have xsL: "length xs \<le> ?L"
    and leafT: "\<And>j. j < ?L \<Longrightarrow> T ! (?L + j) = js_get xs j"
    and leafT': "\<And>j. j < ?L \<Longrightarrow> T' ! (?L + j) = js_get xs' j"
    by (simp_all add: isTree_def)
  have c: "ctl (?L - 1) s0"
  proof -
    have key: "j = y div 2 \<longleftrightarrow> 2 * j = y \<or> 2 * j + 1 = y" for j y :: nat by presburger
    have "relevant s0 j \<longleftrightarrow> known s0 (2 * j) \<or> known s0 (2 * j + 1)" for j
      unfolding kn rl key by blast
    moreover have "\<not> known s0 j" if "j \<le> ?L - 1" for j
    proof
      assume "known s0 j"
      then obtain x where jx: "j = ?L + x" unfolding kn by auto
      from that have le: "?L + x \<le> ?L - 1" unfolding jx .
      have "0 < a \<Longrightarrow> \<not> a + x \<le> a - 1" for a :: nat by arith
      from this [OF L] le show False by blast
    qed
    ultimately show ?thesis by (simp add: ctl_def)
  qed
  have a: "agree ?L T T' (?L - 1) s0"
  proof -
    have "if known s0 j then T ! j \<noteq> None \<and> T' ! j \<noteq> None else T' ! j = T ! j"
      if j: "?L - 1 < j" "j < 2 * ?L" for j
    proof -
      from j obtain x where x: "j = ?L + x" "x < ?L"
        by (metis L add_diff_inverse_nat less_diff_conv2 linorder_not_less mult_2 nat_add_left_cancel_less One_nat_def Suc_pred less_Suc_eq_le)
      have k: "known s0 j \<longleftrightarrow> x \<in> set indices" unfolding kn x by auto
      show ?thesis
      proof (cases "x \<in> set indices")
        case True
        with rng have "x < length xs" by simp
        with True k len x show ?thesis by (simp add: leafT leafT' js_get_def)
      next
        case False
        with same len have "js_get xs' x = js_get xs x" by (simp add: js_get_def)
        with False k x show ?thesis by (simp add: leafT leafT')
      qed
    qed
    then show ?thesis unfolding agree_def by blast
  qed
  have r: "ran hf T' (rev (map (\<lambda>i. xs' ! i) indices)) (?L - 1) s0"
  proof -
    have rngL: "\<forall>x\<in>set indices. x < ?L" using rng xsL by auto
    have g: "0 < a \<Longrightarrow> Suc (a - 1) = a \<and> 2 * (a - 1) + 2 = 2 * a" for a :: nat by arith
    have up: "[Suc (?L - 1)..<2 * (?L - 1) + 2] = [?L..<2 * ?L]"
      by (simp only: g [OF L])
    have kf: "known s0 = (\<lambda>j. \<exists>x\<in>set indices. j = ?L + x)" using kn by auto
    have "queueAt T' (known s0) (?L - 1) = rev (map (\<lambda>j. the (T' ! j)) (map (\<lambda>x. ?L + x) indices))"
      unfolding queueAt_def up kf
      by (simp add: rev_filter [symmetric] rev_map [symmetric] filter_upt_sorted [OF srt rngL])
    also have "map (\<lambda>j. the (T' ! j)) (map (\<lambda>x. ?L + x) indices) = map (\<lambda>i. xs' ! i) indices"
      using rng rngL len by (simp add: leafT' js_get_def)
    finally show ?thesis
      by (simp add: ran_def stepsOf_def decsOf_def emp)
  qed
  from c a r show ?thesis by (simp add: genInv_def)
qed

lemma isTree_length: "isTree hf L xs T \<Longrightarrow> length T div 2 = L"
  by (simp add: isTree_def)

lemma finalGen_inv:
  assumes T: "isTree hf (2 ^ D) xs T" and T': "isTree hf (2 ^ D) xs' T'"
    and len: "length xs' = length xs"
    and srt: "sorted_wrt (<) indices" and rng: "\<forall>i\<in>set indices. i < length xs"
    and same: "\<forall>i<length xs. i \<notin> set indices \<longrightarrow> xs' ! i = xs ! i"
  shows "genInv hf (2 ^ D) T T' (rev (map (\<lambda>i. xs' ! i) indices)) 0 (finalGen T indices)"
proof -
  have "sorted indices" using srt by (rule strict_sorted_imp_sorted)
  from markLoop_sorted [OF this, of "2 ^ D"] obtain s0 where
    s0: "markLoop indices (2 ^ D) [0..<length indices] initGen = Inr s0" by metis
  have fg: "finalGen T indices = genLoop T (2 ^ D - 1) s0"
    using s0 by (simp add: finalGen_def isTree_length [OF T])
  show ?thesis
    unfolding fg
    by (rule genLoop_inv [OF T T' init_genInv [OF T T' len srt rng same s0]]) simp
qed

lemma finalGen_run:
  assumes T: "isTree hf (2 ^ D) xs T" and T': "isTree hf (2 ^ D) xs' T'"
    and len: "length xs' = length xs"
    and srt: "sorted_wrt (<) indices" and rng: "\<forall>i\<in>set indices. i < length xs"
    and same: "\<forall>i<length xs. i \<notin> set indices \<longrightarrow> xs' ! i = xs ! i"
    and ne: "indices \<noteq> []"
  shows "\<exists>h. T' ! 1 = Some h \<and>
    runSteps hf (stepsOf (finalGen T indices)) (decsOf (finalGen T indices))
      (rev (map (\<lambda>i. xs' ! i) indices)) = Some ([h], [])"
proof -
  let ?s = "finalGen T indices" and ?q0 = "rev (map (\<lambda>i. xs' ! i) indices)"
  from finalGen_inv [OF assms(1-6)] have a: "agree (2 ^ D) T T' 0 ?s" and r: "ran hf T' ?q0 0 ?s"
    by (simp_all add: genInv_def)
  from r have run: "runSteps hf (stepsOf ?s) (decsOf ?s) ?q0 = Some (queueAt T' (known ?s) 0, [])"
    by (simp add: ran_def)
  have q: "queueAt T' (known ?s) 0 = (if known ?s 1 then [the (T' ! 1)] else [])"
    by (simp add: queueAt_def)
  from ne have "?q0 \<noteq> []" by simp
  from runSteps_nonempty [OF this, of hf "stepsOf ?s" "decsOf ?s" "[]"] run q
  have k: "known ?s 1" by (cases "known ?s 1") simp_all
  have "(1::nat) < 2 * 2 ^ D" by (simp add: Suc_lessI)
  with a k have "T' ! 1 \<noteq> None" unfolding agree_def by (metis zero_less_one)
  then obtain h where h: "T' ! 1 = Some h" by auto
  with run q k show ?thesis by simp
qed

lemma finalGen_facts:
  assumes T: "isTree hf (2 ^ D) xs T"
    and srt: "sorted_wrt (<) indices" and rng: "\<forall>i\<in>set indices. i < length xs"
  shows "length (flagsAcc (finalGen T indices)) = length (skipsAcc (finalGen T indices))"
    and "length (ordersAcc (finalGen T indices)) = length (skipsAcc (finalGen T indices))"
    and "\<forall>x\<in>set (stepsOf (finalGen T indices)). \<not> (fst x \<and> fst (snd x))"
    and "length (decsOf (finalGen T indices)) =
         length (filter (\<lambda>x. \<not> fst x \<and> \<not> fst (snd x)) (stepsOf (finalGen T indices)))"
    and "indices = [] \<Longrightarrow> stepsOf (finalGen T indices) = []"
proof -
  let ?s = "finalGen T indices" and ?q0 = "rev (map (\<lambda>i. xs ! i) indices)"
  from finalGen_inv [OF T T refl srt rng] have r: "ran hf T ?q0 0 ?s"
    by (simp add: genInv_def)
  then show "length (flagsAcc ?s) = length (skipsAcc ?s)" "length (ordersAcc ?s) = length (skipsAcc ?s)"
    "\<forall>x\<in>set (stepsOf ?s). \<not> (fst x \<and> fst (snd x))"
    "length (decsOf ?s) = length (filter (\<lambda>x. \<not> fst x \<and> \<not> fst (snd x)) (stepsOf ?s))"
    by (simp_all add: ran_def)
  assume "indices = []"
  with r have "runSteps hf (stepsOf ?s) (decsOf ?s) [] \<noteq> None" by (simp add: ran_def)
  then show "stepsOf ?s = []"
    by (cases "stepsOf ?s") (auto split: if_splits)
qed

lemma hash_pair_commute: "hash_pair H a b = hash_pair H b a"
  by (auto simp: hash_pair_def)

lemma runSteps_commute:
  assumes "\<And>a b. hf a b = hf b a"
  shows "runSteps hf (map (\<lambda>x. (fst x, fst (snd x), False)) xs) ds q = runSteps hf xs ds q"
proof (induction xs arbitrary: ds q)
  case Nil
  show ?case by simp
next
  case (Cons x xs)
  obtain f s od where x: "x = (f, s, od)" by (cases x)
  show ?case
    unfolding x using assms by (auto simp: Cons.IH split: list.splits)
qed

lemma steps_map_eq:
  assumes "length sk = length fl" "length os = length fl"
  shows "map (\<lambda>i. (js_bool fl i, js_bool sk i, js_bool os i)) [0..<length fl] = zip fl (zip sk os)"
  using assms by (intro nth_equalityI) (simp_all add: js_bool_def)

lemma steps_map_nil:
  assumes "length sk = length fl" "length os = length fl"
  shows "map (\<lambda>i. (js_bool fl i, js_bool sk i, js_bool [] i)) [0..<length fl] =
         map (\<lambda>x. (fst x, fst (snd x), False)) (zip fl (zip sk os))"
  using assms by (intro nth_equalityI) (simp_all add: js_bool_def)

lemma initRoot_absQ: "leafs \<noteq> [] \<Longrightarrow> absQ (length leafs) (initRoot leafs) (rev leafs)"
  by (simp add: absQ_def window_def initRoot_def)

lemma verify_generated:
  assumes hf: "hashFunction opts = hf"
    and run: "runSteps hf (stepsOf s) (decsOf s) (rev leafs) = Some ([h], [])"
    and len: "length (flagsAcc s) = length (skipsAcc s)" "length (ordersAcc s) = length (skipsAcc s)"
    and ne: "leafs \<noteq> []"
    and os: "os = ordersAcc s \<or> (os = [] \<and> (\<forall>a b. hf a b = hf b a))"
  shows "\<exists>st. getRootBooleansLoop opts (length leafs) (flagsAcc s) (skipsAcc s) os (decsOf s)
            [0..<length (flagsAcc s)] (initRoot leafs) = Inr st \<and>
          rootCell (length leafs) st = Some h \<and> decommitmentIndex st = length (decsOf s)"
proof -
  let ?fl = "flagsAcc s" and ?sk = "skipsAcc s"
  have l: "length ?sk = length ?fl" "length (ordersAcc s) = length ?fl" using len by simp_all
  have "runSteps hf (map (\<lambda>i. (js_bool ?fl i, js_bool ?sk i, js_bool os i)) [0..<length ?fl])
          (decsOf s) (rev leafs) = Some ([h], [])"
  proof (cases "os = ordersAcc s")
    case True
    with run show ?thesis by (simp add: steps_map_eq [OF l] stepsOf_def)
  next
    case False
    with os have o: "os = []" and c: "\<And>a b. hf a b = hf b a" by auto
    from run show ?thesis
      unfolding o steps_map_nil [OF l] by (simp add: runSteps_commute [of hf, OF c] stepsOf_def)
  qed
  then have "runSteps (hashFunction opts) (map (\<lambda>i. (js_bool ?fl i, js_bool ?sk i, js_bool os i)) [0..<length ?fl])
          (drop (decommitmentIndex (initRoot leafs)) (decsOf s)) (rev leafs) = Some ([h], [])"
    by (simp add: hf initRoot_def)
  from getRootBooleansLoop_refines [OF initRoot_absQ [OF ne] _ this]
  obtain st where st: "getRootBooleansLoop opts (length leafs) ?fl ?sk os (decsOf s) [0..<length ?fl] (initRoot leafs) = Inr st"
    "absQ (length leafs) st [h]" "decommitmentIndex st \<le> length (decsOf s)"
    "drop (decommitmentIndex st) (decsOf s) = []"
    by (auto simp: initRoot_def)
  from absQ_root [OF st(2)] st(1,3,4) show ?thesis by simp
qed

lemma getRootBooleans_generated:
  assumes hf: "hashFunction opts = hf"
    and run: "runSteps hf (stepsOf s) (decsOf s) (rev leafs) = Some ([h], [])"
    and len: "length (flagsAcc s) = length (skipsAcc s)" "length (ordersAcc s) = length (skipsAcc s)"
    and ne: "leafs \<noteq> []"
    and os: "os = ordersAcc s \<or> (os = [] \<and> (\<forall>a b. hf a b = hf b a))"
  shows "getRootBooleans leafs n (flagsAcc s) (skipsAcc s) os (decsOf s) opts =
           Inr \<lparr>elementCount = n, root = Some h\<rparr>"
  using verify_generated [OF assms] by (auto simp: getRootBooleans_def Let_def)

lemma newHashStep_pair:
  assumes "hashStep opts m dcs f s od st1 = Inr st1'" "hashStep opts m dcs f s od st2 = Inr st2'"
    and "pairSt st st1 st2"
  shows "\<exists>st'. newHashStep opts m dcs f s od st = Inr st' \<and> pairSt st' st1' st2'"
  using assms
  by (auto simp: hashStep_def newHashStep_def pairSt_def Let_def split: if_splits sum.splits)

lemma getNewRootBooleansLoop_pair:
  assumes "getRootBooleansLoop opts m fl sk os dcs is st1 = Inr st1'"
    and "getRootBooleansLoop opts m fl sk os dcs is st2 = Inr st2'"
    and "pairSt st st1 st2"
  shows "\<exists>st'. getNewRootBooleansLoop opts m fl sk os dcs is st = Inr st' \<and> pairSt st' st1' st2'"
  using assms
proof (induction "is" arbitrary: st st1 st2)
  case Nil
  then show ?case by simp
next
  case (Cons i rest)
  from Cons.prems(1) obtain a where a: "hashStep opts m dcs (js_bool fl i) (js_bool sk i) (js_bool os i) st1 = Inr a"
    and a': "getRootBooleansLoop opts m fl sk os dcs rest a = Inr st1'"
    by (auto split: sum.splits)
  from Cons.prems(2) obtain b where b: "hashStep opts m dcs (js_bool fl i) (js_bool sk i) (js_bool os i) st2 = Inr b"
    and b': "getRootBooleansLoop opts m fl sk os dcs rest b = Inr st2'"
    by (auto split: sum.splits)
  from newHashStep_pair [OF a b Cons.prems(3)] obtain c where
    c: "newHashStep opts m dcs (js_bool fl i) (js_bool sk i) (js_bool os i) st = Inr c" "pairSt c a b"
    by blast
  from Cons.IH [OF a' b' c(2)] c(1) show ?case by simp
qed

lemma getNewRootBooleans_generated:
  assumes hf: "hashFunction opts = hf"
    and run: "runSteps hf (stepsOf s) (decsOf s) (rev leafs) = Some ([h], [])"
    and run': "runSteps hf (stepsOf s) (decsOf s) (rev leafs') = Some ([h'], [])"
    and len: "length (flagsAcc s) = length (skipsAcc s)" "length (ordersAcc s) = length (skipsAcc s)"
    and ne: "leafs \<noteq> []" and ll: "length leafs' = length leafs"
    and os: "os = ordersAcc s \<or> (os = [] \<and> (\<forall>a b. hf a b = hf b a))"
  shows "getNewRootBooleans leafs leafs' n (flagsAcc s) (skipsAcc s) os (decsOf s) opts =
           Inr \<lparr>elementCount = n, root = Some h, newRoot = Some h'\<rparr>"
proof -
  from ne ll have ne': "leafs' \<noteq> []" by auto
  from verify_generated [OF hf run len ne os] obtain st1 where
    st1: "getRootBooleansLoop opts (length leafs) (flagsAcc s) (skipsAcc s) os (decsOf s)
            [0..<length (flagsAcc s)] (initRoot leafs) = Inr st1"
      "rootCell (length leafs) st1 = Some h" by blast
  from verify_generated [OF hf run' len ne' os] ll obtain st2 where
    st2: "getRootBooleansLoop opts (length leafs) (flagsAcc s) (skipsAcc s) os (decsOf s)
            [0..<length (flagsAcc s)] (initRoot leafs') = Inr st2"
      "rootCell (length leafs) st2 = Some h'" by auto
  let ?st0 = "\<lparr>hashes = rev leafs, readIndex = 0, writeIndex = 0, decommitmentIndex = 0,
                 updateHashes = rev leafs'\<rparr>"
  have "pairSt ?st0 (initRoot leafs) (initRoot leafs')" by (simp add: pairSt_def initRoot_def)
  from getNewRootBooleansLoop_pair [OF st1(1) st2(1) this] obtain st where
    st: "getNewRootBooleansLoop opts (length leafs) (flagsAcc s) (skipsAcc s) os (decsOf s)
            [0..<length (flagsAcc s)] ?st0 = Inr st" "pairSt st st1 st2" by blast
  have "rootCell (length leafs) (rootState.truncate st) = rootCell (length leafs) st1"
    using st(2) by (simp add: rootCell_def pairSt_def rootState.truncate_def)
  moreover have "newRootCell (length leafs) st = rootCell (length leafs) st2"
  proof -
    from st(2) have e: "updateHashes st = hashes st2" "writeIndex st = writeIndex st2"
      by (simp_all add: pairSt_def)
    show ?thesis by (simp add: rootCell_def newRootCell_def e)
  qed
  ultimately show ?thesis
    using st(1) st1(2) st2(2) by (simp add: getNewRootBooleans_def Let_def)
qed

lemma treeOf_isTree:
  "isTree (if srt then hash_pair H else H) (2 ^ getDepth (length elements))
     (map (leafImage H) elements) (treeOf H srt elements)"
  using buildTree_isTree [of "getOptions H srt False" "map (leafImage H) elements"]
  by (simp add: treeOf_def getOptions_def leafCountOf_def)

lemma count_steps:
  assumes "length sk = length fl" "length os = length fl"
  shows "length (filter (\<lambda>x. \<not> fst x \<and> \<not> fst (snd x)) (zip fl (zip sk os))) =
         length (filter (\<lambda>(f, s). \<not> f \<and> \<not> s) (zip fl sk))"
  using assms
proof (induction fl arbitrary: sk os)
  case Nil
  then show ?case by simp
next
  case (Cons f fl)
  then obtain s sk' od os' where "sk = s # sk'" "os = od # os'"
    by (cases sk; cases os) auto
  with Cons show ?case by simp
qed

lemma nth_leafs:
  assumes "\<forall>i\<in>set indices. i < length elements"
  shows "map (\<lambda>i. leafImage H (elements ! i)) indices = map (\<lambda>i. map (leafImage H) elements ! i) indices"
  using assms by simp

section \<open>Multi-proof round trip and update\<close>

text \<open>
  Claim C1, for a non-empty list of indices. For elements \<open>elements\<close> (at least one),
  either hash variant and a non-empty strictly ascending list of indices below the element
  count, generation succeeds and \<open>getRoot\<close>, fed the leaf images of the elements at the
  indices and the proof, returns the internal root \<open>tree[1]\<close> and the element count; hashing
  the count with that result gives the root of the tree.
\<close>

theorem multi_proof_round_trip:
  assumes "elements \<noteq> []" "indices \<noteq> []" "sorted_wrt (<) indices"
    and "\<forall>i\<in>set indices. i < length elements"
  shows "\<exists>p h. generate (treeOf H srt elements) (length elements) indices (getOptions H srt False) = Inr p \<and>
           treeOf H srt elements ! 1 = Some h \<and>
           getRoot (map (\<lambda>i. leafImage H (elements ! i)) indices) [] (elementCount p)
               (flags p) (skips p) (orders p) (decommitments p) (getOptions H srt False)
             = Some (Inr \<lparr>elementCount = length elements, root = Some h\<rparr>) \<and>
           H (to32ByteBuffer (length elements)) h = treeRoot H srt elements"
proof -
  let ?T = "treeOf H srt elements" and ?opts = "getOptions H srt False"
  let ?hf = "if srt then hash_pair H else H"
  let ?xs = "map (leafImage H) elements"
  let ?s = "finalGen ?T indices"
  let ?leafs = "map (\<lambda>i. leafImage H (elements ! i)) indices"
  have T: "isTree ?hf (2 ^ getDepth (length ?xs)) ?xs ?T" using treeOf_isTree [of srt H elements] by simp
  have rng: "\<forall>i\<in>set indices. i < length ?xs" using assms(4) by simp
  have srt': "sorted indices" using assms(3) by (rule strict_sorted_imp_sorted)
  have lf: "?leafs = map (\<lambda>i. ?xs ! i) indices" using assms(4) by simp
  from finalGen_run [OF T T refl assms(3) rng _ assms(2)] obtain h where
    h: "?T ! 1 = Some h" "runSteps ?hf (stepsOf ?s) (decsOf ?s) (rev ?leafs) = Some ([h], [])"
    unfolding lf by auto
  note facts = finalGen_facts [OF T assms(3) rng]
  have hf: "hashFunction ?opts = ?hf" by (simp add: getOptions_def)
  have os: "orDefault (if \<not> sortedHash ?opts then Some (ordersAcc ?s) else None) = ordersAcc ?s \<or>
      (orDefault (if \<not> sortedHash ?opts then Some (ordersAcc ?s) else None) = [] \<and> (\<forall>a b. ?hf a b = ?hf b a))"
    by (simp add: getOptions_def orDefault_def hash_pair_commute)
  have ne: "?leafs \<noteq> []" using assms(2) by simp
  have g: "generate ?T (length elements) indices ?opts =
      Inr \<lparr>elementCount = length elements, compactProof = [], decommitments = decsOf ?s,
           flags = flagsAcc ?s, skips = skipsAcc ?s,
           orders = (if \<not> sortedHash ?opts then Some (ordersAcc ?s) else None)\<rparr>"
    using generateBooleans_finalGen [OF srt', of ?T "length elements" ?opts]
    by (simp add: generate_def getOptions_def)
  have v: "getRootBooleans ?leafs (length elements) (flagsAcc ?s) (skipsAcc ?s)
        (orDefault (if \<not> sortedHash ?opts then Some (ordersAcc ?s) else None)) (decsOf ?s) ?opts
      = Inr \<lparr>elementCount = length elements, root = Some h\<rparr>"
    by (rule getRootBooleans_generated [OF hf h(2) facts(1,2) ne os])
  have r: "H (to32ByteBuffer (length elements)) h = treeRoot H srt elements"
    using assms(1) h(1) by (simp add: treeRoot_def)
  show ?thesis
    unfolding g using h(1) v r by (simp add: getRoot_def)
qed

theorem multi_proof_round_trip_witness:
  "\<exists>p h. generate (treeOf (\<lambda>a b. 3 * a + b) False [5, 6, 7]) (length [5, 6, 7 :: buffer]) [0, 2]
             (getOptions (\<lambda>a b. 3 * a + b) False False) = Inr p \<and>
     treeOf (\<lambda>a b. 3 * a + b) False [5, 6, 7] ! 1 = Some h \<and>
     getRoot (map (\<lambda>i. leafImage (\<lambda>a b. 3 * a + b) ([5, 6, 7] ! i)) [0, 2]) [] (elementCount p)
         (flags p) (skips p) (orders p) (decommitments p) (getOptions (\<lambda>a b. 3 * a + b) False False)
       = Some (Inr \<lparr>elementCount = length [5, 6, 7 :: buffer], root = Some h\<rparr>) \<and>
     (\<lambda>a b. 3 * a + b) (to32ByteBuffer (length [5, 6, 7 :: buffer])) h
       = treeRoot (\<lambda>a b. 3 * a + b) False [5, 6, 7]"
  by (rule multi_proof_round_trip) simp_all

text \<open>
  Claim C1 as stated also covers the empty list of indices: there \<open>hashes[rootIndex]\<close> is
  \<open>undefined\<close> and \<open>getRoot\<close> raises a TypeError.
\<close>

theorem multi_proof_empty_indices:
  "sorted_wrt (<) ([] :: nat list) \<and>
   generate (treeOf (\<lambda>a b. 3 * a + b) False [5]) 1 [] (getOptions (\<lambda>a b. 3 * a + b) False False)
     = Inr \<lparr>elementCount = 1, compactProof = [], decommitments = [], flags = [], skips = [],
            orders = Some []\<rparr> \<and>
   getRoot [] [] 1 [] [] (Some []) [] (getOptions (\<lambda>a b. 3 * a + b) False False)
     = Some (Inl TypeError)"
  by (simp add: generate_def generateBooleans_def getOptions_def treeOf_def buildTree_def
      leafCountOf_def getDepth.simps initGen_def getRoot_def getRootBooleans_def initRoot_def
      rootCell_def orDefault_def)

text \<open>
  Claim C2, for a non-empty list of indices. When \<open>elements'\<close> differs from \<open>elements\<close>
  only at the indices, \<open>getNewRoot\<close>, fed the old and the new leaf images and the proof
  generated from the old tree, returns the internal root of the old tree as \<open>root\<close> and
  the internal root of the tree over \<open>elements'\<close> as \<open>newRoot\<close>.
\<close>

theorem multi_proof_update:
  assumes "elements \<noteq> []" "indices \<noteq> []" "sorted_wrt (<) indices"
    and "\<forall>i\<in>set indices. i < length elements"
    and "length elements' = length elements"
    and "\<forall>i<length elements. i \<notin> set indices \<longrightarrow> elements' ! i = elements ! i"
  shows "\<exists>p h h'. generate (treeOf H srt elements) (length elements) indices (getOptions H srt False) = Inr p \<and>
           treeOf H srt elements ! 1 = Some h \<and> treeOf H srt elements' ! 1 = Some h' \<and>
           getNewRoot (map (\<lambda>i. leafImage H (elements ! i)) indices)
               (map (\<lambda>i. leafImage H (elements' ! i)) indices) [] (elementCount p)
               (flags p) (skips p) (orders p) (decommitments p) (getOptions H srt False)
             = Some (Inr \<lparr>elementCount = length elements, root = Some h, newRoot = Some h'\<rparr>)"
proof -
  let ?T = "treeOf H srt elements" and ?T' = "treeOf H srt elements'" and ?opts = "getOptions H srt False"
  let ?hf = "if srt then hash_pair H else H"
  let ?xs = "map (leafImage H) elements" and ?xs' = "map (leafImage H) elements'"
  let ?s = "finalGen ?T indices"
  let ?leafs = "map (\<lambda>i. leafImage H (elements ! i)) indices"
  let ?leafs' = "map (\<lambda>i. leafImage H (elements' ! i)) indices"
  have T: "isTree ?hf (2 ^ getDepth (length ?xs)) ?xs ?T" using treeOf_isTree [of srt H elements] by simp
  have T': "isTree ?hf (2 ^ getDepth (length ?xs)) ?xs' ?T'"
    using treeOf_isTree [of srt H elements'] assms(5) by simp
  have len: "length ?xs' = length ?xs" using assms(5) by simp
  have rng: "\<forall>i\<in>set indices. i < length ?xs" using assms(4) by simp
  have same: "\<forall>i<length ?xs. i \<notin> set indices \<longrightarrow> ?xs' ! i = ?xs ! i" using assms(5,6) by simp
  have srt': "sorted indices" using assms(3) by (rule strict_sorted_imp_sorted)
  have lf: "?leafs = map (\<lambda>i. ?xs ! i) indices" using assms(4) by simp
  have lf': "?leafs' = map (\<lambda>i. ?xs' ! i) indices" using assms(4,5) by simp
  from finalGen_run [OF T T refl assms(3) rng _ assms(2)] obtain h where
    h: "?T ! 1 = Some h" "runSteps ?hf (stepsOf ?s) (decsOf ?s) (rev ?leafs) = Some ([h], [])"
    unfolding lf by auto
  from finalGen_run [OF T T' len assms(3) rng same assms(2)] obtain h' where
    h': "?T' ! 1 = Some h'" "runSteps ?hf (stepsOf ?s) (decsOf ?s) (rev ?leafs') = Some ([h'], [])"
    unfolding lf' by auto
  note facts = finalGen_facts [OF T assms(3) rng]
  have hf: "hashFunction ?opts = ?hf" by (simp add: getOptions_def)
  have os: "orDefault (if \<not> sortedHash ?opts then Some (ordersAcc ?s) else None) = ordersAcc ?s \<or>
      (orDefault (if \<not> sortedHash ?opts then Some (ordersAcc ?s) else None) = [] \<and> (\<forall>a b. ?hf a b = ?hf b a))"
    by (simp add: getOptions_def orDefault_def hash_pair_commute)
  have ne: "?leafs \<noteq> []" using assms(2) by simp
  have ll: "length ?leafs' = length ?leafs" by simp
  have g: "generate ?T (length elements) indices ?opts =
      Inr \<lparr>elementCount = length elements, compactProof = [], decommitments = decsOf ?s,
           flags = flagsAcc ?s, skips = skipsAcc ?s,
           orders = (if \<not> sortedHash ?opts then Some (ordersAcc ?s) else None)\<rparr>"
    using generateBooleans_finalGen [OF srt', of ?T "length elements" ?opts]
    by (simp add: generate_def getOptions_def)
  have v: "getNewRootBooleans ?leafs ?leafs' (length elements) (flagsAcc ?s) (skipsAcc ?s)
        (orDefault (if \<not> sortedHash ?opts then Some (ordersAcc ?s) else None)) (decsOf ?s) ?opts
      = Inr \<lparr>elementCount = length elements, root = Some h, newRoot = Some h'\<rparr>"
    by (rule getNewRootBooleans_generated [OF hf h(2) h'(2) facts(1,2) ne ll os])
  show ?thesis
    unfolding g using h(1) h'(1) v by (simp add: getNewRoot_def)
qed

theorem multi_proof_update_witness:
  "\<exists>p h h'. generate (treeOf (\<lambda>a b. 3 * a + b) False [5, 6, 7]) (length [5, 6, 7 :: buffer]) [0, 2]
             (getOptions (\<lambda>a b. 3 * a + b) False False) = Inr p \<and>
     treeOf (\<lambda>a b. 3 * a + b) False [5, 6, 7] ! 1 = Some h \<and>
     treeOf (\<lambda>a b. 3 * a + b) False [9, 6, 8] ! 1 = Some h' \<and>
     getNewRoot (map (\<lambda>i. leafImage (\<lambda>a b. 3 * a + b) ([5, 6, 7] ! i)) [0, 2])
         (map (\<lambda>i. leafImage (\<lambda>a b. 3 * a + b) ([9, 6, 8] ! i)) [0, 2]) [] (elementCount p)
         (flags p) (skips p) (orders p) (decommitments p) (getOptions (\<lambda>a b. 3 * a + b) False False)
       = Some (Inr \<lparr>elementCount = length [5, 6, 7 :: buffer], root = Some h, newRoot = Some h'\<rparr>)"
proof (rule multi_proof_update)
  show "\<forall>i<length [5, 6, 7 :: buffer]. i \<notin> set [0, 2] \<longrightarrow> [9, 6, 8 :: buffer] ! i = [5, 6, 7] ! i"
    by (auto simp: nth_Cons' less_Suc_eq numeral_3_eq_3)
qed simp_all

text \<open>
  Claim C2 as stated also covers the empty list of indices: there \<open>getNewRoot\<close> raises a
  TypeError.
\<close>

theorem multi_proof_update_empty_indices:
  "sorted_wrt (<) ([] :: nat list) \<and>
   generate (treeOf (\<lambda>a b. 3 * a + b) False [5]) 1 [] (getOptions (\<lambda>a b. 3 * a + b) False False)
     = Inr \<lparr>elementCount = 1, compactProof = [], decommitments = [], flags = [], skips = [],
            orders = Some []\<rparr> \<and>
   getNewRoot [] [] [] 1 [] [] (Some []) [] (getOptions (\<lambda>a b. 3 * a + b) False False)
     = Some (Inl TypeError)"
  by (simp add: generate_def generateBooleans_def getOptions_def treeOf_def buildTree_def
      leafCountOf_def getDepth.simps initGen_def getNewRoot_def getNewRootBooleans_def
      rootCell_def orDefault_def rootState.truncate_def)

lemma generate_booleans_eq:
  assumes "sorted_wrt (<) indices"
  shows "generate T n indices (getOptions H srt False) =
      Inr \<lparr>elementCount = n, compactProof = [], decommitments = decsOf (finalGen T indices),
           flags = flagsAcc (finalGen T indices), skips = skipsAcc (finalGen T indices),
           orders = (if srt then None else Some (ordersAcc (finalGen T indices)))\<rparr>"
  using generateBooleans_finalGen [OF strict_sorted_imp_sorted [OF assms], of T n "getOptions H srt False"]
  by (simp add: generate_def getOptions_def)

lemma generated_run:
  assumes "indices \<noteq> []" "sorted_wrt (<) indices" "\<forall>i\<in>set indices. i < length elements"
  shows "\<exists>h. treeOf H srt elements ! 1 = Some h \<and>
     runSteps (if srt then hash_pair H else H) (stepsOf (finalGen (treeOf H srt elements) indices))
       (decsOf (finalGen (treeOf H srt elements) indices))
       (rev (map (\<lambda>i. leafImage H (elements ! i)) indices)) = Some ([h], [])"
proof -
  let ?xs = "map (leafImage H) elements"
  have T: "isTree (if srt then hash_pair H else H) (2 ^ getDepth (length ?xs)) ?xs (treeOf H srt elements)"
    using treeOf_isTree [of srt H elements] by simp
  have rng: "\<forall>i\<in>set indices. i < length ?xs" using assms(3) by simp
  have lf: "map (\<lambda>i. leafImage H (elements ! i)) indices = map (\<lambda>i. ?xs ! i) indices"
    using assms(3) by simp
  from finalGen_run [OF T T refl assms(2) rng _ assms(1)] show ?thesis
    unfolding lf by auto
qed

lemma generated_facts:
  assumes "sorted_wrt (<) indices" "\<forall>i\<in>set indices. i < length elements"
  shows "length (flagsAcc (finalGen (treeOf H srt elements) indices)) =
           length (skipsAcc (finalGen (treeOf H srt elements) indices))"
    and "length (ordersAcc (finalGen (treeOf H srt elements) indices)) =
           length (skipsAcc (finalGen (treeOf H srt elements) indices))"
    and "\<forall>x\<in>set (stepsOf (finalGen (treeOf H srt elements) indices)). \<not> (fst x \<and> fst (snd x))"
    and "length (decsOf (finalGen (treeOf H srt elements) indices)) =
         length (filter (\<lambda>x. \<not> fst x \<and> \<not> fst (snd x)) (stepsOf (finalGen (treeOf H srt elements) indices)))"
    and "indices = [] \<Longrightarrow> stepsOf (finalGen (treeOf H srt elements) indices) = []"
proof -
  let ?xs = "map (leafImage H) elements"
  have T: "isTree (if srt then hash_pair H else H) (2 ^ getDepth (length ?xs)) ?xs (treeOf H srt elements)"
    using treeOf_isTree [of srt H elements] by simp
  have rng: "\<forall>i\<in>set indices. i < length ?xs" using assms(2) by simp
  note f = finalGen_facts [OF T assms(1) rng]
  show "length (flagsAcc (finalGen (treeOf H srt elements) indices)) =
           length (skipsAcc (finalGen (treeOf H srt elements) indices))" by (rule f(1))
  show "length (ordersAcc (finalGen (treeOf H srt elements) indices)) =
           length (skipsAcc (finalGen (treeOf H srt elements) indices))" by (rule f(2))
  show "\<forall>x\<in>set (stepsOf (finalGen (treeOf H srt elements) indices)). \<not> (fst x \<and> fst (snd x))" by (rule f(3))
  show "length (decsOf (finalGen (treeOf H srt elements) indices)) =
         length (filter (\<lambda>x. \<not> fst x \<and> \<not> fst (snd x)) (stepsOf (finalGen (treeOf H srt elements) indices)))"
    by (rule f(4))
  show "indices = [] \<Longrightarrow> stepsOf (finalGen (treeOf H srt elements) indices) = []" by (rule f(5))
qed

lemma orders_choice:
  "orDefault (if srt then None else Some os) = os \<or>
   (orDefault (if srt then None else Some os) = [] \<and>
    (\<forall>a b. (if srt then hash_pair H else H) a b = (if srt then hash_pair H else H) b a))"
  by (simp add: orDefault_def hash_pair_commute)

section \<open>The number of decommitments\<close>

text \<open>
  Claim C6. The proof generated for a strictly ascending list of indices of a tree has as
  many decommitments as it has steps whose flag bit and skip bit are both 0, which is at
  most the number of steps; and the loop of \<open>getRootBooleans\<close> on that proof ends with
  \<open>decommitmentIndex\<close> equal to that number.
\<close>

theorem decommitment_count:
  assumes "sorted_wrt (<) indices" "\<forall>i\<in>set indices. i < length elements"
  shows "\<exists>p st. generate (treeOf H srt elements) (length elements) indices (getOptions H srt False) = Inr p \<and>
     length (decommitments p) = length (filter (\<lambda>(f, s). \<not> f \<and> \<not> s) (zip (flags p) (skips p))) \<and>
     length (decommitments p) \<le> length (flags p) \<and>
     getRootBooleansLoop (getOptions H srt False) (length indices) (flags p) (skips p)
         (orDefault (orders p)) (decommitments p) [0..<length (flags p)]
         (initRoot (map (\<lambda>i. leafImage H (elements ! i)) indices)) = Inr st \<and>
     decommitmentIndex st = length (decommitments p)"
proof -
  let ?T = "treeOf H srt elements" and ?opts = "getOptions H srt False"
  let ?s = "finalGen ?T indices"
  let ?leafs = "map (\<lambda>i. leafImage H (elements ! i)) indices"
  let ?os = "orDefault (if srt then None else Some (ordersAcc ?s))"
  note facts = generated_facts [OF assms, of H srt]
  have l: "length (skipsAcc ?s) = length (flagsAcc ?s)" "length (ordersAcc ?s) = length (flagsAcc ?s)"
    using facts(1,2) by simp_all
  have cnt: "length (decsOf ?s) = length (filter (\<lambda>(f, s). \<not> f \<and> \<not> s) (zip (flagsAcc ?s) (skipsAcc ?s)))"
    using facts(4) count_steps [OF l] by (simp add: stepsOf_def)
  have le: "length (decsOf ?s) \<le> length (flagsAcc ?s)"
  proof -
    have "length (filter (\<lambda>(f, s). \<not> f \<and> \<not> s) (zip (flagsAcc ?s) (skipsAcc ?s))) \<le> length (zip (flagsAcc ?s) (skipsAcc ?s))"
      by (rule length_filter_le)
    with cnt l show ?thesis by simp
  qed
  have "\<exists>st. getRootBooleansLoop ?opts (length indices) (flagsAcc ?s) (skipsAcc ?s) ?os (decsOf ?s)
      [0..<length (flagsAcc ?s)] (initRoot ?leafs) = Inr st \<and> decommitmentIndex st = length (decsOf ?s)"
  proof (cases "indices = []")
    case True
    from facts(5) [OF True] l have "flagsAcc ?s = []" by (auto simp: stepsOf_def)
    with le show ?thesis by (simp add: initRoot_def)
  next
    case False
    from generated_run [OF False assms, of H srt] obtain h where
      h: "runSteps (if srt then hash_pair H else H) (stepsOf ?s) (decsOf ?s) (rev ?leafs) = Some ([h], [])"
      by blast
    have hf: "hashFunction ?opts = (if srt then hash_pair H else H)" by (simp add: getOptions_def)
    have ne: "?leafs \<noteq> []" using False by simp
    from verify_generated [OF hf h facts(1,2) ne orders_choice] show ?thesis by auto
  qed
  then show ?thesis
    unfolding generate_booleans_eq [OF assms(1)] using cnt le by simp
qed

theorem decommitment_count_witness:
  "\<exists>p st. generate (treeOf (\<lambda>a b. 3 * a + b) True [5, 6, 7]) (length [5, 6, 7 :: buffer]) [0, 2]
        (getOptions (\<lambda>a b. 3 * a + b) True False) = Inr p \<and>
     length (decommitments p) = length (filter (\<lambda>(f, s). \<not> f \<and> \<not> s) (zip (flags p) (skips p))) \<and>
     length (decommitments p) \<le> length (flags p) \<and>
     getRootBooleansLoop (getOptions (\<lambda>a b. 3 * a + b) True False) (length [0, 2 :: nat]) (flags p) (skips p)
         (orDefault (orders p)) (decommitments p) [0..<length (flags p)]
         (initRoot (map (\<lambda>i. leafImage (\<lambda>a b. 3 * a + b) ([5, 6, 7] ! i)) [0, 2])) = Inr st \<and>
     decommitmentIndex st = length (decommitments p)"
  by (rule decommitment_count) simp_all

section \<open>Compact proofs\<close>

lemma bit_toBigIntBoolSet: "bit (toBigIntBoolSet bs) k \<longleftrightarrow> k < length bs \<and> bs ! k"
proof (induction bs arbitrary: k)
  case Nil
  show ?case by simp
next
  case (Cons b bs)
  show ?case by (cases k) (auto simp: bit_0 bit_Suc Cons.IH)
qed

lemma toBigIntBoolSet_less: "toBigIntBoolSet bs < 2 ^ length bs"
  by (induction bs) auto

lemma and_exp_pos: "(0 < x AND 2 ^ k) = bit x k" for x :: nat
  using and_exp_eq_0_iff_not_bit [of x k] by auto

lemmas and_exp_iff = and_exp_eq_0_iff_not_bit and_exp_pos

lemma or_stop_less:
  assumes "x < 2 ^ n"
  shows "x OR 2 ^ n < (2 :: nat) ^ Suc n"
proof -
  have "x < 2 ^ Suc n" using assms by simp
  then have "take_bit (Suc n) (x OR 2 ^ n) = x OR 2 ^ n"
    by (simp add: take_bit_or take_bit_nat_eq_self)
  then show ?thesis by (simp only: take_bit_nat_eq_self_iff)
qed

lemma buffer_roundtrip: "x < 2 ^ 256 \<Longrightarrow> bufferToBigInt (bigIntTo32ByteBuffer x) = x"
  by (simp add: bufferToBigInt_def bigIntTo32ByteBuffer_def unat_of_nat)

lemma count_roundtrip: "x < 2 ^ 256 \<Longrightarrow> from32ByteBuffer (to32ByteBuffer x) = x"
  by (simp add: from32ByteBuffer_def to32ByteBuffer_def unat_of_nat)

lemma stopped_roundtrip:
  assumes "length bs \<le> 255"
  shows "bit (bufferToBigInt (bigIntTo32ByteBuffer (toBigIntBoolSet bs OR 2 ^ length bs))) k \<longleftrightarrow>
     (k < length bs \<and> bs ! k) \<or> k = length bs"
proof -
  have "toBigIntBoolSet bs OR 2 ^ length bs < 2 ^ Suc (length bs)"
    by (rule or_stop_less [OF toBigIntBoolSet_less])
  also have "\<dots> \<le> (2 :: nat) ^ 256" using assms by (intro power_increasing) simp_all
  finally show ?thesis
    by (simp add: buffer_roundtrip bit_or_iff bit_exp_iff bit_toBigIntBoolSet)
qed

lemma orders_roundtrip:
  assumes "length bs \<le> 255"
  shows "bufferToBigInt (to32ByteBoolBuffer bs) = toBigIntBoolSet bs"
proof -
  have "toBigIntBoolSet bs < 2 ^ length bs" by (rule toBigIntBoolSet_less)
  also have "\<dots> \<le> (2 :: nat) ^ 256" using assms by (intro power_increasing) simp_all
  finally show ?thesis by (simp add: to32ByteBoolBuffer_def buffer_roundtrip)
qed

lemma getRootBitsLoop_booleans:
  assumes F: "\<And>k. bit F k \<longleftrightarrow> (k < n \<and> fl ! k) \<or> k = n"
    and S: "\<And>k. bit S k \<longleftrightarrow> (k < n \<and> sk ! k) \<or> k = n"
    and O: "\<And>k. k < n \<Longrightarrow> (case Ob of None \<Rightarrow> False | Some ob \<Rightarrow> ob AND 2 ^ k \<noteq> 0) = js_bool os k"
    and len: "length fl = n" "length sk = n"
    and ns: "\<And>k. k < n \<Longrightarrow> \<not> (fl ! k \<and> sk ! k)"
  shows "k \<le> n \<Longrightarrow> getRootBitsLoop opts m F S Ob dcs (2 ^ k) st =
           Some (getRootBooleansLoop opts m fl sk os dcs [k..<n] st)"
proof (induction "n - k" arbitrary: k st)
  case 0
  then have "k = n" by simp
  then show ?case
    by (subst getRootBitsLoop.simps) (simp add: and_exp_iff F S)
next
  case (Suc d)
  then have k: "k < n" by simp
  have up: "[k..<n] = k # [Suc k..<n]" using k by (rule upt_conv_Cons)
  have bits: "(F AND 2 ^ k = 0) = (\<not> js_bool fl k)" "(S AND 2 ^ k = 0) = (\<not> js_bool sk k)"
    "(0 < F AND 2 ^ k) = js_bool fl k" "(0 < S AND 2 ^ k) = js_bool sk k"
    using k len by (simp_all add: and_exp_iff F S js_bool_def)
  have nostop: "\<not> (js_bool sk k \<and> js_bool fl k)" using ns [OF k] k len by (auto simp: js_bool_def)
  have IH: "getRootBitsLoop opts m F S Ob dcs (2 * 2 ^ k) st' =
      Some (getRootBooleansLoop opts m fl sk os dcs [Suc k..<n] st')" for st'
    using Suc.hyps(1) [of "Suc k" st'] Suc.hyps(2) k by simp
  show ?case
    by (subst getRootBitsLoop.simps)
      (simp add: bits nostop O [OF k] up IH split: sum.splits)
qed

lemma hashStep_Inl: "hashStep opts m dcs f s od st = Inl e \<Longrightarrow> e = TypeError"
  by (auto simp: hashStep_def applyHash_def Let_def split: if_splits option.splits sum.splits)

lemma hashStep_Inr:
  assumes "hashStep opts m dcs f s od st = Inr st'"
  shows "decommitmentIndex st \<le> decommitmentIndex st'"
    and "\<not> f \<Longrightarrow> \<not> s \<Longrightarrow> decommitmentIndex st < length dcs \<and> decommitmentIndex st' = Suc (decommitmentIndex st)"
  using assms
  by (auto simp: hashStep_def applyHash_def js_get_def Let_def split: if_splits option.splits sum.splits)

lemma small_bit: "x < 2 ^ n \<Longrightarrow> n \<le> k \<Longrightarrow> \<not> bit (x :: nat) k"
proof -
  assume "x < 2 ^ n" "n \<le> k"
  then have "take_bit n x = x" by (simp add: take_bit_nat_eq_self)
  then have "bit x k = bit (take_bit n x) k" by simp
  with \<open>n \<le> k\<close> show ?thesis by (simp add: bit_take_bit_iff)
qed

lemma no_stop_loop:
  assumes fl: "fl < 2 ^ 256" and sk: "sk < 2 ^ 256" and ns: "fl AND sk = (0 :: nat)"
  shows "getRootBitsLoop opts m fl sk os dcs (2 ^ k) st = Some (Inl TypeError)"
proof (induction "(256 - k) + (length dcs - decommitmentIndex st)" arbitrary: k st rule: less_induct)
  case less
  have "\<not> bit (fl AND sk) k" by (simp add: ns)
  then have nostop: "\<not> (sk AND 2 ^ k \<noteq> 0 \<and> fl AND 2 ^ k \<noteq> 0)"
    by (auto simp: and_exp_iff bit_and_iff)
  let ?step = "hashStep opts m dcs (fl AND 2 ^ k \<noteq> 0) (sk AND 2 ^ k \<noteq> 0)
      (case os of None \<Rightarrow> False | Some os \<Rightarrow> os AND 2 ^ k \<noteq> 0) st"
  show ?case
  proof (cases ?step)
    case (Inl e)
    with hashStep_Inl [OF Inl] nostop show ?thesis
      by (subst getRootBitsLoop.simps) simp
  next
    case (Inr st')
    have "(256 - Suc k) + (length dcs - decommitmentIndex st') < (256 - k) + (length dcs - decommitmentIndex st)"
    proof (cases "k < 256")
      case True
      with hashStep_Inr(1) [OF Inr] show ?thesis by simp
    next
      case False
      then have "\<not> bit fl k" "\<not> bit sk k" using small_bit [OF fl] small_bit [OF sk] by simp_all
      then have "\<not> (fl AND 2 ^ k \<noteq> 0)" "\<not> (sk AND 2 ^ k \<noteq> 0)" by (simp_all add: and_exp_iff)
      from hashStep_Inr(2) [OF Inr this] False show ?thesis by auto
    qed
    from less [OF this] have "getRootBitsLoop opts m fl sk os dcs (2 * 2 ^ k) st' = Some (Inl TypeError)"
      by simp
    with Inr nostop show ?thesis
      by (subst getRootBitsLoop.simps) simp
  qed
qed

text \<open>
  Claim C8, as the code has it. A compact proof whose flags and skips words have no bit
  position set in both (no stop bit) never yields a root and does not make \<open>getRoot\<close> loop:
  once the decommitments are used up, the hash function is applied to \<open>undefined\<close> and the
  TypeError it raises reaches the caller.
\<close>

theorem no_stop_bit_type_error:
  assumes "compactProof' \<noteq> []"
    and "bufferToBigInt (compactProof' ! 1) AND bufferToBigInt (compactProof' ! 2) = 0"
  shows "getRoot leafs compactProof' elemCount flags' skips' orders' decommitments' options
           = Some (Inl TypeError)"
proof -
  have lt: "bufferToBigInt b < 2 ^ 256" for b
    using unsigned_less [of b, where 'a = nat] by (simp add: bufferToBigInt_def)
  from assms(1) have "getRoot leafs compactProof' elemCount flags' skips' orders' decommitments' options
      = getRootBits leafs compactProof' options"
    by (simp add: getRoot_def)
  also have "\<dots> = Some (Inl TypeError)"
    using no_stop_loop [OF lt lt assms(2), of options "length leafs" _ _ 0]
    by (simp add: getRootBits_def Let_def)
  finally show ?thesis .
qed

theorem no_stop_bit_type_error_witness:
  "[1, 5, 2, 0 :: buffer] \<noteq> [] \<and>
   bufferToBigInt ([1, 5, 2, 0] ! 1) AND bufferToBigInt ([1, 5, 2, 0] ! 2) = 0 \<and>
   getRoot [7, 8] [1, 5, 2, 0] 0 [] [] None [9] (getOptions (\<lambda>a b. 3 * a + b) False True)
     = Some (Inl TypeError)"
proof -
  have a: "[1, 5, 2, 0 :: buffer] \<noteq> []" by simp
  have b: "bufferToBigInt ([1, 5, 2, 0] ! 1) AND bufferToBigInt ([1, 5, 2, 0] ! 2) = 0"
    by (simp add: bufferToBigInt_def)
  from a b no_stop_bit_type_error [OF a b] show ?thesis by blast
qed

text \<open>
  Claim C8 as stated fails: the error that reaches the caller is not the error of a
  malformed proof.
\<close>

theorem no_stop_bit_not_malformed:
  "getRoot [7] [1, 0, 0, 0] 0 [] [] None [] (getOptions (\<lambda>a b. 3 * a + b) False True)
     \<noteq> Some (Inl MalformedProof)"
proof -
  have a: "[1, 0, 0, 0 :: buffer] \<noteq> []" by simp
  have b: "bufferToBigInt ([1, 0, 0, 0] ! 1) AND bufferToBigInt ([1, 0, 0, 0] ! 2) = 0"
    by (simp add: bufferToBigInt_def)
  have lt: "bufferToBigInt b < 2 ^ 256" for b
    using unsigned_less [of b, where 'a = nat] by (simp add: bufferToBigInt_def)
  have "getRoot [7] [1, 0, 0, 0] 0 [] [] None [] (getOptions (\<lambda>a b. 3 * a + b) False True)
      = Some (Inl TypeError)"
    using no_stop_loop [OF lt lt b, of "getOptions (\<lambda>a b. 3 * a + b) False True" "length [7 :: buffer]" _ _ 0]
    by (simp add: getRoot_def getRootBits_def Let_def getOptions_def)
  then show ?thesis by simp
qed

lemma genLoop_flags_length: "length (flagsAcc (genLoop T n s)) \<le> length (flagsAcc s) + n"
proof (induction n arbitrary: s)
  case 0
  show ?case by simp
next
  case (Suc n)
  have "length (flagsAcc (genStep T (Suc n) s)) \<le> length (flagsAcc s) + 1"
    by (simp add: genStep_flags)
  with Suc [of "genStep T (Suc n) s"] show ?case by simp
qed

lemma finalGen_flags_length:
  assumes "sorted indices"
  shows "length (flagsAcc (finalGen T indices)) \<le> length T div 2 - 1"
proof -
  from markLoop_sorted [OF assms, of "length T div 2"] obtain s0 where
    s0: "markLoop indices (length T div 2) [0..<length indices] initGen = Inr s0" "flagsAcc s0 = []"
    by metis
  with genLoop_flags_length [of T "length T div 2 - 1" s0] show ?thesis
    by (simp add: finalGen_def)
qed

lemma generate_compact_eq:
  assumes "sorted_wrt (<) indices" "length (flagsAcc (finalGen T indices)) \<le> 255"
  shows "generate T n indices (getOptions H srt True) =
      Inr \<lparr>elementCount = n,
           compactProof = [to32ByteBuffer n,
              bigIntTo32ByteBuffer (toBigIntBoolSet (flagsAcc (finalGen T indices)) OR 2 ^ length (flagsAcc (finalGen T indices))),
              bigIntTo32ByteBuffer (toBigIntBoolSet (skipsAcc (finalGen T indices)) OR 2 ^ length (flagsAcc (finalGen T indices)))]
             @ (if srt then decsOf (finalGen T indices)
                else [to32ByteBoolBuffer (ordersAcc (finalGen T indices))] @ decsOf (finalGen T indices)),
           decommitments = [], flags = [], skips = [], orders = None\<rparr>"
  using generateBooleans_finalGen [OF strict_sorted_imp_sorted [OF assms(1)], of T n "getOptions H srt True"]
    assms(2)
  by (simp add: generate_def generateBits_def getOptions_def Let_def)

lemma generate_compact_too_large:
  assumes "sorted_wrt (<) indices" "\<not> length (flagsAcc (finalGen T indices)) \<le> 255"
  shows "generate T n indices (getOptions H srt True) = Inl ProofTooLarge"
  using generateBooleans_finalGen [OF strict_sorted_imp_sorted [OF assms(1)], of T n "getOptions H srt True"]
    assms(2)
  by (simp add: generate_def generateBits_def getOptions_def Let_def)

lemma getRootBits_generated:
  assumes run: "runSteps (if srt then hash_pair H else H) (stepsOf s) (decsOf s) (rev leafs) = Some ([h], [])"
    and len: "length (flagsAcc s) = length (skipsAcc s)" "length (ordersAcc s) = length (skipsAcc s)"
    and ne: "leafs \<noteq> []"
    and ns: "\<forall>x\<in>set (stepsOf s). \<not> (fst x \<and> fst (snd x))"
    and n: "length (flagsAcc s) \<le> 255" and cnt: "count < 2 ^ 256"
  shows "getRootBits leafs
      ([to32ByteBuffer count,
        bigIntTo32ByteBuffer (toBigIntBoolSet (flagsAcc s) OR 2 ^ length (flagsAcc s)),
        bigIntTo32ByteBuffer (toBigIntBoolSet (skipsAcc s) OR 2 ^ length (flagsAcc s))]
       @ (if srt then decsOf s else [to32ByteBoolBuffer (ordersAcc s)] @ decsOf s))
      (getOptions H srt True) = Some (Inr \<lparr>elementCount = count, root = Some h\<rparr>)"
proof -
  let ?opts = "getOptions H srt True"
  let ?fl = "flagsAcc s" and ?sk = "skipsAcc s" and ?od = "ordersAcc s"
  let ?n = "length ?fl"
  let ?F = "bufferToBigInt (bigIntTo32ByteBuffer (toBigIntBoolSet ?fl OR 2 ^ ?n))"
  let ?S = "bufferToBigInt (bigIntTo32ByteBuffer (toBigIntBoolSet ?sk OR 2 ^ ?n))"
  let ?Ob = "if srt then None else Some (bufferToBigInt (to32ByteBoolBuffer ?od))"
  let ?os = "orDefault (if srt then None else Some ?od)"
  have l: "length ?sk = ?n" "length ?od = ?n" using len by simp_all
  have hf: "hashFunction ?opts = (if srt then hash_pair H else H)" by (simp add: getOptions_def)
  from verify_generated [OF hf run len ne orders_choice] obtain st where
    st: "getRootBooleansLoop ?opts (length leafs) ?fl ?sk ?os (decsOf s) [0..<?n] (initRoot leafs) = Inr st"
      "rootCell (length leafs) st = Some h" by blast
  have F: "bit ?F k \<longleftrightarrow> (k < ?n \<and> ?fl ! k) \<or> k = ?n" for k
    by (rule stopped_roundtrip [OF n])
  have S: "bit ?S k \<longleftrightarrow> (k < ?n \<and> ?sk ! k) \<or> k = ?n" for k
    using stopped_roundtrip [of ?sk k] n l by simp
  have O: "(case ?Ob of None \<Rightarrow> False | Some ob \<Rightarrow> ob AND 2 ^ k \<noteq> 0) = js_bool ?os k" if "k < ?n" for k
    using n l by (simp add: orders_roundtrip and_exp_iff bit_toBigIntBoolSet js_bool_def orDefault_def)
  have nsk: "\<not> (?fl ! k \<and> ?sk ! k)" if "k < ?n" for k
  proof -
    from that l have "stepsOf s ! k \<in> set (stepsOf s)" by (intro nth_mem) (simp add: stepsOf_def)
    with ns have "\<not> (fst (stepsOf s ! k) \<and> fst (snd (stepsOf s ! k)))" by blast
    with that l show ?thesis by (simp add: stepsOf_def)
  qed
  have loop: "getRootBitsLoop ?opts (length leafs) ?F ?S ?Ob (decsOf s) 1 (initRoot leafs) = Some (Inr st)"
    using getRootBitsLoop_booleans [of ?F ?n ?fl ?S ?sk ?Ob ?os 0 ?opts "length leafs" "decsOf s" "initRoot leafs",
        OF F S O refl l(1) nsk] st(1)
    by simp
  show ?thesis
  proof (cases srt)
    case True
    with loop st(2) cnt show ?thesis
      by (simp add: getRootBits_def getOptions_def count_roundtrip)
  next
    case False
    with loop st(2) cnt show ?thesis
      by (simp add: getRootBits_def getOptions_def count_roundtrip)
  qed
qed

text \<open>
  Claim C4, for a non-empty list of indices. Whenever the compact proof is produced (the
  proof has at most 255 steps), verifying it with \<open>getRoot\<close> yields the same root and the
  same element count as verifying the boolean-array proof of the same tree and indices:
  the internal root of the tree and the element count.
\<close>

theorem compact_equals_booleans:
  assumes "indices \<noteq> []" "sorted_wrt (<) indices" "\<forall>i\<in>set indices. i < length elements"
    and "length elements < 2 ^ 32"
    and "generate (treeOf H srt elements) (length elements) indices (getOptions H srt True) = Inr pc"
  shows "\<exists>p h. generate (treeOf H srt elements) (length elements) indices (getOptions H srt False) = Inr p \<and>
     getRoot (map (\<lambda>i. leafImage H (elements ! i)) indices) (compactProof pc) (elementCount pc)
         (flags pc) (skips pc) (orders pc) (decommitments pc) (getOptions H srt True)
       = Some (Inr \<lparr>elementCount = length elements, root = Some h\<rparr>) \<and>
     getRoot (map (\<lambda>i. leafImage H (elements ! i)) indices) (compactProof p) (elementCount p)
         (flags p) (skips p) (orders p) (decommitments p) (getOptions H srt False)
       = Some (Inr \<lparr>elementCount = length elements, root = Some h\<rparr>)"
proof -
  let ?T = "treeOf H srt elements"
  let ?s = "finalGen ?T indices"
  let ?leafs = "map (\<lambda>i. leafImage H (elements ! i)) indices"
  note facts = generated_facts [OF assms(2,3), of H srt]
  from generated_run [OF assms(1-3), of H srt] obtain h where
    h: "runSteps (if srt then hash_pair H else H) (stepsOf ?s) (decsOf ?s) (rev ?leafs) = Some ([h], [])"
    by blast
  have ne: "?leafs \<noteq> []" using assms(1) by simp
  have n: "length (flagsAcc ?s) \<le> 255"
    using assms(5) generate_compact_too_large [OF assms(2), of ?T "length elements" H srt]
    by (cases "length (flagsAcc ?s) \<le> 255") simp_all
  have cnt: "length elements < 2 ^ 256"
  proof -
    have "(2 :: nat) ^ 32 \<le> 2 ^ 256" by (intro power_increasing) simp_all
    with assms(4) show ?thesis by linarith
  qed
  have pc: "pc = \<lparr>elementCount = length elements,
           compactProof = [to32ByteBuffer (length elements),
              bigIntTo32ByteBuffer (toBigIntBoolSet (flagsAcc ?s) OR 2 ^ length (flagsAcc ?s)),
              bigIntTo32ByteBuffer (toBigIntBoolSet (skipsAcc ?s) OR 2 ^ length (flagsAcc ?s))]
             @ (if srt then decsOf ?s else [to32ByteBoolBuffer (ordersAcc ?s)] @ decsOf ?s),
           decommitments = [], flags = [], skips = [], orders = None\<rparr>"
    using assms(5) generate_compact_eq [OF assms(2) n, of "length elements" H srt] by simp
  have bits: "getRoot ?leafs (compactProof pc) (elementCount pc) (flags pc) (skips pc) (orders pc)
      (decommitments pc) (getOptions H srt True) = Some (Inr \<lparr>elementCount = length elements, root = Some h\<rparr>)"
    using getRootBits_generated [OF h facts(1,2) ne facts(3) n cnt]
    unfolding pc by (simp add: getRoot_def)
  have hf: "hashFunction (getOptions H srt False) = (if srt then hash_pair H else H)"
    by (simp add: getOptions_def)
  have bools: "getRootBooleans ?leafs (length elements) (flagsAcc ?s) (skipsAcc ?s)
      (orDefault (if srt then None else Some (ordersAcc ?s))) (decsOf ?s) (getOptions H srt False)
      = Inr \<lparr>elementCount = length elements, root = Some h\<rparr>"
    by (rule getRootBooleans_generated [OF hf h facts(1,2) ne orders_choice])
  show ?thesis
    unfolding generate_booleans_eq [OF assms(2)] using bits bools by (simp add: getRoot_def)
qed

theorem compact_equals_booleans_witness:
  "\<exists>pc p h. generate (treeOf (\<lambda>a b. 3 * a + b) False [5, 6, 7]) (length [5, 6, 7 :: buffer]) [0, 2]
        (getOptions (\<lambda>a b. 3 * a + b) False True) = Inr pc \<and>
     generate (treeOf (\<lambda>a b. 3 * a + b) False [5, 6, 7]) (length [5, 6, 7 :: buffer]) [0, 2]
        (getOptions (\<lambda>a b. 3 * a + b) False False) = Inr p \<and>
     getRoot (map (\<lambda>i. leafImage (\<lambda>a b. 3 * a + b) ([5, 6, 7] ! i)) [0, 2]) (compactProof pc) (elementCount pc)
         (flags pc) (skips pc) (orders pc) (decommitments pc) (getOptions (\<lambda>a b. 3 * a + b) False True)
       = Some (Inr \<lparr>elementCount = length [5, 6, 7 :: buffer], root = Some h\<rparr>) \<and>
     getRoot (map (\<lambda>i. leafImage (\<lambda>a b. 3 * a + b) ([5, 6, 7] ! i)) [0, 2]) (compactProof p) (elementCount p)
         (flags p) (skips p) (orders p) (decommitments p) (getOptions (\<lambda>a b. 3 * a + b) False False)
       = Some (Inr \<lparr>elementCount = length [5, 6, 7 :: buffer], root = Some h\<rparr>)"
proof -
  let ?H = "\<lambda>a b :: buffer. 3 * a + b"
  let ?T = "treeOf ?H False [5, 6, 7]"
  have s: "sorted_wrt (<) [0, 2 :: nat]" by simp
  have "length ?T div 2 = 4"
    using isTree_length [OF treeOf_isTree [of False ?H "[5, 6, 7]"]] by (simp add: getDepth.simps)
  with finalGen_flags_length [OF strict_sorted_imp_sorted [OF s], of ?T]
  have "length (flagsAcc (finalGen ?T [0, 2])) \<le> 255" by simp
  from generate_compact_eq [OF s this, of "length [5, 6, 7 :: buffer]" ?H False]
  obtain pc where pc: "generate ?T (length [5, 6, 7 :: buffer]) [0, 2] (getOptions ?H False True) = Inr pc"
    by blast
  have "\<exists>p h. generate ?T (length [5, 6, 7 :: buffer]) [0, 2] (getOptions ?H False False) = Inr p \<and>
     getRoot (map (\<lambda>i. leafImage ?H ([5, 6, 7] ! i)) [0, 2]) (compactProof pc) (elementCount pc)
         (flags pc) (skips pc) (orders pc) (decommitments pc) (getOptions ?H False True)
       = Some (Inr \<lparr>elementCount = length [5, 6, 7 :: buffer], root = Some h\<rparr>) \<and>
     getRoot (map (\<lambda>i. leafImage ?H ([5, 6, 7] ! i)) [0, 2]) (compactProof p) (elementCount p)
         (flags p) (skips p) (orders p) (decommitments p) (getOptions ?H False False)
       = Some (Inr \<lparr>elementCount = length [5, 6, 7 :: buffer], root = Some h\<rparr>)"
    by (rule compact_equals_booleans [OF _ s _ _ pc]) simp_all
  with pc show ?thesis by blast
qed

text \<open>
  Claim C4 as stated also covers the empty list of indices: there the compact proof yields
  an \<open>undefined\<close> root and the boolean-array proof a TypeError.
\<close>

theorem compact_differs_on_empty_indices:
  "generate (treeOf (\<lambda>a b. 3 * a + b) False [5]) 1 [] (getOptions (\<lambda>a b. 3 * a + b) False True)
     = Inr \<lparr>elementCount = 1, compactProof = [1, 1, 1, 0], decommitments = [], flags = [],
            skips = [], orders = None\<rparr> \<and>
   getRoot [] [1, 1, 1, 0] 1 [] [] None [] (getOptions (\<lambda>a b. 3 * a + b) False True)
     = Some (Inr \<lparr>elementCount = 1, root = None\<rparr>) \<and>
   generate (treeOf (\<lambda>a b. 3 * a + b) False [5]) 1 [] (getOptions (\<lambda>a b. 3 * a + b) False False)
     = Inr \<lparr>elementCount = 1, compactProof = [], decommitments = [], flags = [], skips = [],
            orders = Some []\<rparr> \<and>
   getRoot [] [] 1 [] [] (Some []) [] (getOptions (\<lambda>a b. 3 * a + b) False False)
     = Some (Inl TypeError)"
proof -
  have loop: "getRootBitsLoop opts m (Suc 0) (Suc 0) os dcs (Suc 0) st = Some (Inr st)" for opts m os dcs st
    by (subst getRootBitsLoop.simps) simp
  show ?thesis
    by (simp add: generate_def generateBits_def generateBooleans_def getOptions_def treeOf_def
        buildTree_def leafCountOf_def getDepth.simps initGen_def getRoot_def getRootBooleans_def
        getRootBits_def loop initRoot_def rootCell_def orDefault_def to32ByteBuffer_def
        bigIntTo32ByteBuffer_def to32ByteBoolBuffer_def bufferToBigInt_def from32ByteBuffer_def)
qed

section \<open>Index inference on a tree of one element\<close>

text \<open>
  Claim C5 fails on the code for a proof with no step. For the only index of a tree of one
  element the proof has empty flags, skips and orders, and \<open>getIndices\<close> takes the empty
  orders for missing ones and raises, where the claim (and the test of the repository for
  one element) expects \<open>[0]\<close>. From the compact proof of the same tree and index the
  indices are inferred.
\<close>

theorem infer_indices_one_element:
  "generate (treeOf (\<lambda>a b. 3 * a + b) False [5]) 1 [0] (getOptions (\<lambda>a b. 3 * a + b) False False)
     = Inr \<lparr>elementCount = 1, compactProof = [], decommitments = [], flags = [], skips = [],
            orders = Some []\<rparr> \<and>
   getIndices 1 [] [] [] (Some []) = Some (Inl CannotInferIndices) \<and>
   generate (treeOf (\<lambda>a b. 3 * a + b) False [5]) 1 [0] (getOptions (\<lambda>a b. 3 * a + b) False True)
     = Inr \<lparr>elementCount = 1, compactProof = [1, 1, 1, 0], decommitments = [], flags = [],
            skips = [], orders = None\<rparr> \<and>
   getIndices 1 [1, 1, 1, 0] [] [] None = Some (Inr [0])"
proof -
  have loop: "getIndicesBitsLoop m (Suc 0) (Suc 0) os (Suc 0) st = Some st" for m os st
    by (subst getIndicesBitsLoop.simps) simp
  show ?thesis
    by (simp add: generate_def generateBits_def generateBooleans_def getOptions_def treeOf_def
        buildTree_def leafCountOf_def getDepth.simps initGen_def getIndices_def
        getIndicesWithBooleans_def getIndicesWithBits_def loop initIndex_def orDefault_def
        to32ByteBuffer_def bigIntTo32ByteBuffer_def to32ByteBoolBuffer_def bufferToBigInt_def)
qed

section \<open>Append proofs: the decommitments are the peaks\<close>

lemma parentNode_None [simp]: "parentNode hf x None = x"
  by (cases x) (simp_all add: parentNode_def)

lemma parentNode_Some [simp]: "parentNode hf (Some a) (Some b) = Some (hf a b)"
  by (simp add: parentNode_def)

lemma subtreeRoot_Nil [simp]: "subtreeRoot hf d [] = None"
  by (simp add: subtreeRoot_None_iff)

lemma subtreeRoot_extend: "length xs \<le> 2 ^ d \<Longrightarrow> subtreeRoot hf (Suc d) xs = subtreeRoot hf d xs"
  by simp

lemma subtreeRoot_height: "length xs \<le> 2 ^ d \<Longrightarrow> subtreeRoot hf (d + e) xs = subtreeRoot hf d xs"
proof (induction e)
  case 0
  show ?case by simp
next
  case (Suc e)
  have "(2::nat) ^ d \<le> 2 ^ (d + e)" by simp
  with Suc.prems have "length xs \<le> 2 ^ (d + e)" by linarith
  then have "subtreeRoot hf (Suc (d + e)) xs = subtreeRoot hf (d + e) xs" by (rule subtreeRoot_extend)
  with Suc show ?case by simp
qed

lemma peaksBelow_Nil [simp]: "peaksBelow hf d [] = []"
  by (induction d) simp_all

lemma peaksBelow_extend: "length xs < 2 ^ d \<Longrightarrow> peaksBelow hf (d + e) xs = peaksBelow hf d xs"
proof (induction e)
  case 0
  show ?case by simp
next
  case (Suc e)
  have "(2::nat) ^ d \<le> 2 ^ (d + e)" by simp
  with Suc.prems have "\<not> 2 ^ (d + e) \<le> length xs" by linarith
  with Suc show ?case by simp
qed

lemma peaksBelow_height:
  assumes "length xs < 2 ^ d" "length xs < 2 ^ e"
  shows "peaksBelow hf d xs = peaksBelow hf e xs"
proof (cases "d \<le> e")
  case True
  then have "e = d + (e - d)" by simp
  with peaksBelow_extend [OF assms(1), of hf "e - d"] show ?thesis by simp
next
  case False
  then have "d = e + (d - e)" by simp
  with peaksBelow_extend [OF assms(2), of hf "d - e"] show ?thesis by simp
qed

lemma peaksBelow_nonempty: "xs \<noteq> [] \<Longrightarrow> length xs < 2 ^ d \<Longrightarrow> peaksBelow hf d xs \<noteq> []"
proof (induction d arbitrary: xs)
  case 0
  then show ?case by (cases xs) simp_all
next
  case (Suc d)
  then show ?case by (cases "2 ^ d \<le> length xs") simp_all
qed

lemma bitCount_rec: "bitCount m = m mod 2 + bitCount (m div 2)"
  by (cases "m = 0") (simp_all add: bitCount.simps [of m] bitCount.simps [of 0])

lemma bitCount_top: "2 ^ d \<le> n \<Longrightarrow> n < 2 ^ Suc d \<Longrightarrow> bitCount n = Suc (bitCount (n - 2 ^ d))"
proof (induction d arbitrary: n)
  case 0
  then have "n = 1" by simp
  then show ?case by (simp add: bitCount.simps [of "Suc 0"] bitCount.simps [of 0])
next
  case (Suc d)
  have a: "2 ^ d \<le> n div 2" "n div 2 < 2 ^ Suc d" using Suc.prems by simp_all
  from Suc.prems(1) obtain m where m: "n = 2 * 2 ^ d + m" by (auto simp: le_iff_add)
  have b: "(n - 2 ^ Suc d) div 2 = n div 2 - 2 ^ d" "(n - 2 ^ Suc d) mod 2 = n mod 2"
    unfolding m by simp_all
  show ?case
    using Suc.IH [OF a] bitCount_rec [of n] bitCount_rec [of "n - 2 ^ Suc d"] b by simp
qed

lemma peaksBelow_length: "length xs < 2 ^ d \<Longrightarrow> length (peaksBelow hf d xs) = bitCount (length xs)"
proof (induction d arbitrary: xs)
  case 0
  then show ?case by (simp add: bitCount.simps [of 0])
next
  case (Suc d)
  show ?case
  proof (cases "2 ^ d \<le> length xs")
    case True
    with Suc.prems have "length (drop (2 ^ d) xs) < 2 ^ d" by simp
    from Suc.IH [OF this] bitCount_top [OF True Suc.prems] True show ?thesis by simp
  next
    case False
    with Suc.IH [of xs] show ?thesis by simp
  qed
qed

lemma bag_single [simp]: "bag hf [p] = p"
  by (simp add: bag_def)

lemma bag_Cons: "ps \<noteq> [] \<Longrightarrow> bag hf (p # ps) = hf p (bag hf ps)"
  by (simp add: bag_def)

lemma bag_snoc: "foldr hf ps a = bag hf (ps @ [a])"
  by (simp add: bag_def)

lemma subtreeRoot_full: "xs \<noteq> [] \<Longrightarrow> Some (the (subtreeRoot hf d xs)) = subtreeRoot hf d xs"
  using subtreeRoot_None_iff [of hf d xs] by (cases "subtreeRoot hf d xs") simp_all

lemma subtreeRoot_bag:
  "xs \<noteq> [] \<Longrightarrow> length xs < 2 ^ d \<Longrightarrow> subtreeRoot hf d xs = Some (bag hf (peaksBelow hf d xs))"
proof (induction d arbitrary: xs)
  case 0
  then show ?case by (cases xs) simp_all
next
  case (Suc d)
  show ?case
  proof (cases "2 ^ d \<le> length xs")
    case False
    with Suc.IH [OF Suc.prems(1)] show ?thesis by simp
  next
    case True
    then have tk: "take (2 ^ d) xs \<noteq> []" using Suc.prems(1) by simp
    from subtreeRoot_full [OF tk, of hf d] obtain l where
      l: "subtreeRoot hf d (take (2 ^ d) xs) = Some l" by metis
    show ?thesis
    proof (cases "drop (2 ^ d) xs = []")
      case True
      with \<open>2 ^ d \<le> length xs\<close> l show ?thesis by simp
    next
      case False
      have "length (drop (2 ^ d) xs) < 2 ^ d" using Suc.prems(2) by simp
      from Suc.IH [OF False this] peaksBelow_nonempty [OF False this, of hf] l \<open>2 ^ d \<le> length xs\<close>
      show ?thesis by (simp add: bag_Cons)
    qed
  qed
qed

lemma subtreeRoot_snoc:
  "length xs < 2 ^ d \<Longrightarrow> subtreeRoot hf d (xs @ [a]) = Some (foldr hf (peaksBelow hf d xs) a)"
proof (induction d arbitrary: xs)
  case 0
  then show ?case by simp
next
  case (Suc d)
  show ?case
  proof (cases "2 ^ d \<le> length xs")
    case False
    then have "length xs < 2 ^ d" by simp
    from Suc.IH [OF this] False show ?thesis by simp
  next
    case True
    then have tk: "take (2 ^ d) xs \<noteq> []" by auto
    from subtreeRoot_full [OF tk, of hf d] obtain l where
      l: "subtreeRoot hf d (take (2 ^ d) xs) = Some l" by metis
    have "length (drop (2 ^ d) xs) < 2 ^ d" using Suc.prems by simp
    from Suc.IH [OF this] l True show ?thesis by simp
  qed
qed

lemma nodeVal_Suc:
  "nodeVal hf ys (Suc t) p = parentNode hf (nodeVal hf ys t (2 * p)) (nodeVal hf ys t (2 * p + 1))"
proof -
  have a: "take (2 ^ t) (take (2 ^ Suc t) (drop (p * 2 ^ Suc t) ys)) = take (2 ^ t) (drop (2 * p * 2 ^ t) ys)"
    by (simp add: mult.assoc mult.left_commute min_def)
  have b: "drop (2 ^ t) (take (2 ^ Suc t) (drop (p * 2 ^ Suc t) ys)) = take (2 ^ t) (drop ((2 * p + 1) * 2 ^ t) ys)"
    by (simp add: drop_take algebra_simps)
  show ?thesis unfolding nodeVal_def subtreeRoot.simps a b ..
qed

lemma nodeVal_None_iff: "nodeVal hf ys t p = None \<longleftrightarrow> length ys \<le> p * 2 ^ t"
  by (simp add: nodeVal_def subtreeRoot_None_iff)

lemma nodeVal_old:
  assumes "(p + 1) * 2 ^ t \<le> length xs"
  shows "nodeVal hf (xs @ A) t p = nodeVal hf xs t p"
proof -
  from assms have "p * 2 ^ t + 2 ^ t \<le> length xs" by (simp add: algebra_simps)
  then have "p * 2 ^ t \<le> length xs" "2 ^ t \<le> length xs - p * 2 ^ t" by linarith+
  then show ?thesis by (simp add: nodeVal_def)
qed

lemma nodeVal_leaf: "p < length ys \<Longrightarrow> nodeVal hf ys 0 p = Some (ys ! p)"
  by (simp add: nodeVal_def Cons_nth_drop_Suc [symmetric])

lemma nodeVal_top: "length ys \<le> 2 ^ t \<Longrightarrow> nodeVal hf ys t 0 = subtreeRoot hf t ys"
  by (simp add: nodeVal_def)

lemma peaksAt_0 [simp]: "peaksAt hf xs 0 = []"
  by (simp add: peaksAt_def)

lemma peaksAt_Suc:
  "peaksAt hf xs (Suc t) =
     (if odd (length xs div 2 ^ t)
      then the (nodeVal hf xs t (length xs div 2 ^ t - 1)) # peaksAt hf xs t
      else peaksAt hf xs t)"
proof -
  define q where "q = length xs div 2 ^ t"
  define r where "r = length xs mod 2 ^ t"
  have N: "length xs = q * 2 ^ t + r" and r: "r < 2 ^ t"
    using div_mult_mod_eq [of "length xs" "2 ^ t"] by (simp_all add: q_def r_def)
  have q': "length xs div 2 ^ Suc t = q div 2"
    using div_mult2_eq [of "length xs" "2 ^ t" 2] by (simp add: q_def mult.commute)
  show ?thesis
  proof (cases "odd q")
    case True
    then obtain c where c: "q = 2 * c + 1" by (auto elim: oddE)
    have e1: "q div 2 * 2 ^ Suc t = (q - 1) * 2 ^ t" using c by simp
    have e2: "2 ^ t + (q - 1) * 2 ^ t = q * 2 ^ t" using c by simp
    have len: "2 ^ t \<le> length xs - (q - 1) * 2 ^ t" using N c by (simp add: algebra_simps)
    show ?thesis
      using True len e2 unfolding peaksAt_def q' q_def [symmetric] e1 nodeVal_def
      by (simp add: add.commute)
  next
    case False
    then obtain c where c: "q = 2 * c" by (auto elim: evenE)
    have e1: "q div 2 * 2 ^ Suc t = q * 2 ^ t" using c by simp
    have len: "\<not> 2 ^ t \<le> length xs - q * 2 ^ t" using N r by simp
    show ?thesis
      using False len unfolding peaksAt_def q' q_def [symmetric] e1 by simp
  qed
qed

lemma peaksAt_high: "length xs < 2 ^ t \<Longrightarrow> peaksAt hf xs t = peaksBelow hf t xs"
  by (simp add: peaksAt_def)

lemma peaksAt_suffix_down:
  "\<exists>pre. peaksBelow hf d xs = pre @ peaksAt hf xs (d - j)" if "length xs < 2 ^ d"
proof (induction j)
  case 0
  from that show ?case by (simp add: peaksAt_high)
next
  case (Suc j)
  then obtain pre where pre: "peaksBelow hf d xs = pre @ peaksAt hf xs (d - j)" by blast
  show ?case
  proof (cases "j < d")
    case False
    then have "d - Suc j = d - j" by simp
    with pre show ?thesis by auto
  next
    case True
    then have s: "d - j = Suc (d - Suc j)" by simp
    show ?thesis
    proof (cases "odd (length xs div 2 ^ (d - Suc j))")
      case True
      with pre have "peaksBelow hf d xs =
        (pre @ [the (nodeVal hf xs (d - Suc j) (length xs div 2 ^ (d - Suc j) - 1))]) @ peaksAt hf xs (d - Suc j)"
        unfolding s peaksAt_Suc by simp
      then show ?thesis by blast
    next
      case False
      with pre have "peaksBelow hf d xs = pre @ peaksAt hf xs (d - Suc j)"
        unfolding s peaksAt_Suc by simp
      then show ?thesis by blast
    qed
  qed
qed

lemma peaksAt_suffix:
  assumes "length xs < 2 ^ d"
  shows "\<exists>pre. peaksBelow hf d xs = pre @ peaksAt hf xs t"
proof (cases "t \<le> d")
  case True
  then have "t = d - (d - t)" by simp
  with peaksAt_suffix_down [OF assms, of hf "d - t"] show ?thesis by simp
next
  case False
  then have "(2::nat) ^ d \<le> 2 ^ t" by simp
  with assms have lt: "length xs < 2 ^ t" by linarith
  from peaksBelow_height [OF assms lt, of hf] peaksAt_high [OF lt, of hf]
  have "peaksBelow hf d xs = [] @ peaksAt hf xs t" by simp
  then show ?thesis by blast
qed

lemma less_double_power: "(a::nat) \<le> 2 ^ d \<Longrightarrow> a < 2 * 2 ^ d"
proof -
  assume "a \<le> 2 ^ d"
  moreover have "0 < (2::nat) ^ d" by simp
  ultimately show ?thesis by linarith
qed

lemma getDepth_minimal: "xs \<noteq> [] \<Longrightarrow> 0 < getDepth (length xs) \<Longrightarrow> 2 ^ (getDepth (length xs) - 1) < length xs"
proof (rule ccontr)
  assume ne: "xs \<noteq> []" and pos: "0 < getDepth (length xs)"
    and "\<not> 2 ^ (getDepth (length xs) - 1) < length xs"
  then have "max (length xs) 1 \<le> 2 ^ (getDepth (length xs) - 1)" by (cases xs) simp_all
  from getDepth_least [OF this] pos show False by simp
qed

lemma buildTree_root: "buildTree ys opts ! 1 = subtreeRoot (hashFunction opts) (getDepth (length ys)) ys"
proof -
  have T: "isTree (hashFunction opts) (2 ^ getDepth (length ys)) ys (buildTree ys opts)"
    using buildTree_isTree [of opts ys] by (simp add: leafCountOf_def)
  have "length ys \<le> 2 ^ getDepth (length ys)" by (rule getDepth_bound)
  with isTree_node [OF T, of 0 0] show ?thesis by simp
qed

lemma root_height:
  assumes "length ys \<le> 2 ^ d"
  shows "subtreeRoot hf d ys = subtreeRoot hf (getDepth (length ys)) ys"
proof -
  from assms have "max (length ys) 1 \<le> 2 ^ d" by simp
  from getDepth_least [OF this] have "d = getDepth (length ys) + (d - getDepth (length ys))" by simp
  with subtreeRoot_height [where xs = ys and d = "getDepth (length ys)" and hf = hf
      and e = "d - getDepth (length ys)"] getDepth_bound [of "length ys"]
  show ?thesis by simp
qed

lemma appendDecommitments_peaks:
  assumes T: "isTree hf (2 ^ D) xs T" and ne: "xs \<noteq> []"
    and mn: "0 < D \<Longrightarrow> 2 ^ (D - 1) < length xs"
  shows "t \<le> D \<Longrightarrow>
    appendDecommitments T (2 ^ (D - t) + length xs div 2 ^ t) (map Some (peaksAt hf xs t))
      = map Some (peaksBelow hf (Suc D) xs)"
proof (induction "D - t" arbitrary: t)
  case 0
  then have t: "t = D" by simp
  from T have le: "length xs \<le> 2 ^ D" and lenT: "length T = 2 * 2 ^ D" by (simp_all add: isTree_def)
  show ?case
  proof (cases "length xs < 2 ^ D")
    case True
    then show ?thesis
      by (simp add: t peaksAt_high appendDecommitments.simps [of T "Suc 0"])
  next
    case False
    with le have N: "length xs = 2 ^ D" by simp
    have "(1::nat) < 2 * 2 ^ D" using less_double_power [of 1 D] by simp
    then have n1: "js_nth T 1 = T ! 1" using lenT by (simp add: js_nth_def)
    have t1: "T ! 1 = subtreeRoot hf D xs" using isTree_node [OF T, of 0 0] N by simp
    have pk: "peaksAt hf xs D = []" by (simp add: peaksAt_def N)
    have "appendDecommitments T (Suc (Suc 0)) [] = [js_nth T 1]"
      by (simp add: appendDecommitments.simps [of T "Suc (Suc 0)"] appendDecommitments.simps [of T "Suc 0"])
    then show ?thesis
      using n1 t1 subtreeRoot_full [OF ne, of hf D] by (simp add: t N pk)
  qed
next
  case (Suc n)
  then have tD: "t < D" and s: "D - t = Suc (D - Suc t)" by simp_all
  from T have le: "length xs \<le> 2 ^ D" and lenT: "length T = 2 * 2 ^ D" by (simp_all add: isTree_def)
  define q where "q = length xs div 2 ^ t"
  have p2: "(2::nat) ^ D = 2 ^ (D - t) * 2 ^ t" using tD by (simp flip: power_add)
  have "t \<le> D - 1" using tD by simp
  then have "(2::nat) ^ t \<le> 2 ^ (D - 1)" by (rule power_increasing) simp
  moreover have "2 ^ (D - 1) < length xs" using mn tD by simp
  ultimately have "2 ^ t \<le> length xs" by linarith
  then have q1: "1 \<le> q" by (simp add: q_def div_greater_zero_iff Suc_le_eq)
  have "length xs div 2 ^ t \<le> 2 ^ D div 2 ^ t" using le by (rule div_le_mono)
  then have qu: "q \<le> 2 ^ (D - t)" by (simp add: q_def p2)
  have qN: "q * 2 ^ t \<le> length xs" by (simp add: q_def)
  have q': "length xs div 2 ^ Suc t = q div 2"
    using div_mult2_eq [of "length xs" "2 ^ t" 2] by (simp add: q_def mult.commute)
  have st: "appendDecommitments T (2 ^ (D - t) + q) (map Some (peaksAt hf xs t)) =
    appendDecommitments T (2 ^ (D - Suc t) + q div 2)
      (if odd q then js_nth T (2 ^ (D - t) + q - 1) # map Some (peaksAt hf xs t)
       else map Some (peaksAt hf xs t))"
  proof -
    define i where "i = 2 ^ (D - t) + q"
    have i2: "i = 2 * 2 ^ (D - Suc t) + q" by (simp add: i_def s)
    have "1 \<le> (2::nat) ^ (D - Suc t)" by simp
    with q1 i2 have big: "1 < i" "i \<noteq> 2" by linarith+
    have od: "odd i = odd q" by (simp add: i2)
    have hv: "i div 2 = 2 ^ (D - Suc t) + q div 2" by (simp add: i2)
    show ?thesis
      unfolding i_def [symmetric]
      using appendDecommitments.simps [of T i "map Some (peaksAt hf xs t)"] big od hv by simp
  qed
  have nd: "js_nth T (2 ^ (D - t) + q - 1) = Some (the (nodeVal hf xs t (q - 1)))" if "odd q"
  proof -
    have i: "2 ^ (D - t) + q - 1 = 2 ^ (D - t) + (q - 1)" using q1 by simp
    have pq: "q - 1 < 2 ^ (D - t)" using q1 qu by simp
    have "(2::nat) ^ (D - t) \<le> 2 ^ D" by simp
    with pq have "2 ^ (D - t) + (q - 1) < 2 * 2 ^ D" by linarith
    then have a: "js_nth T (2 ^ (D - t) + (q - 1)) = T ! (2 ^ (D - t) + (q - 1))"
      using lenT by (simp add: js_nth_def)
    have b: "T ! (2 ^ (D - t) + (q - 1)) = nodeVal hf xs t (q - 1)"
      using isTree_node [OF T, of "D - t" "q - 1"] pq tD by (simp add: nodeVal_def)
    have "(q - 1) * 2 ^ t < q * 2 ^ t" using q1 by simp
    with qN have "\<not> length xs \<le> (q - 1) * 2 ^ t" by linarith
    then have "nodeVal hf xs t (q - 1) \<noteq> None" by (simp add: nodeVal_None_iff)
    with a b show ?thesis unfolding i by (cases "nodeVal hf xs t (q - 1)") simp_all
  qed
  have acc: "(if odd q then js_nth T (2 ^ (D - t) + q - 1) # map Some (peaksAt hf xs t)
       else map Some (peaksAt hf xs t)) = map Some (peaksAt hf xs (Suc t))"
    using nd by (simp add: peaksAt_Suc q_def [symmetric])
  from Suc(1) [of "Suc t"] Suc(2) tD
  have "appendDecommitments T (2 ^ (D - Suc t) + length xs div 2 ^ Suc t) (map Some (peaksAt hf xs (Suc t)))
      = map Some (peaksBelow hf (Suc D) xs)" by simp
  with st acc show ?case unfolding q' q_def [symmetric] by simp
qed

lemma generate_append_peaks:
  assumes ne: "xs \<noteq> []"
  shows "generate_append (buildTree xs opts) (length xs) opts' =
    (if compact opts'
     then Inr \<lparr>elementCount = 0,
               compactProof = to32ByteBuffer (length xs) #
                 peaksBelow (hashFunction opts) (Suc (getDepth (length xs))) xs,
               decommitments = []\<rparr>
     else Inr \<lparr>elementCount = length xs, compactProof = [],
               decommitments = peaksBelow (hashFunction opts) (Suc (getDepth (length xs))) xs\<rparr>)"
proof -
  let ?D = "getDepth (length xs)"
  have T: "isTree (hashFunction opts) (2 ^ ?D) xs (buildTree xs opts)"
    using buildTree_isTree [of opts xs] by (simp add: leafCountOf_def)
  from T have len: "length (buildTree xs opts) div 2 = 2 ^ ?D" by (rule isTree_length)
  from appendDecommitments_peaks [OF T ne getDepth_minimal [OF ne], of 0]
  have "appendDecommitments (buildTree xs opts) (2 ^ ?D + length xs) []
    = map Some (peaksBelow (hashFunction opts) (Suc ?D) xs)" by simp
  then show ?thesis
    by (simp add: generate_append_def len Let_def comp_def image_iff)
qed

lemma getNewRootSingleLoop_fold:
  "j \<le> length ds \<Longrightarrow>
   outcome (getNewRootSingleLoop opts ds j (Some h) (Some a) rs) =
     Inr (Some (foldr (hashFunction opts) (take j ds) h), Some (foldr (hashFunction opts) (take j ds) a))"
proof (induction j arbitrary: h a rs)
  case 0
  show ?case by simp
next
  case (Suc j)
  then have rd: "readAt ds (int j) = Some (ds ! j)" and tk: "take (Suc j) ds = take j ds @ [ds ! j]"
    by (simp_all add: readAt_def take_Suc_conv_app_nth)
  from Suc.IH [of "hashFunction opts (ds ! j) h" "hashFunction opts (ds ! j) a" "rs @ [int j, int j]"]
    Suc.prems rd
  show ?case unfolding tk by (simp add: applyHash_def)
qed

lemma getNewRootSingle_fold:
  assumes pa: "proofArgs cp e dcs = (n, ds)" and ne: "ds \<noteq> []" and k: "bitCount32 n = length ds"
  shows "outcome (getNewRootSingle leaf cp e dcs opts) =
    Inr \<lparr>elementCount = n, root = Some (bag (hashFunction opts) ds),
         newRoot = Some (foldr (hashFunction opts) ds leaf)\<rparr>"
proof -
  define j where "j = length ds - 1"
  from ne have j: "length ds = Suc j" by (cases ds) (simp_all add: j_def)
  have ix: "int (length ds) - 1 = int j" "nat (int j) = j" by (simp_all add: j)
  have rd: "readAt ds (int j) = Some (last ds)"
    using ne by (simp add: readAt_def j last_conv_nth)
  have tk: "take j ds = butlast ds" by (simp add: butlast_conv_take j)
  have sn: "foldr (hashFunction opts) ds leaf
    = foldr (hashFunction opts) (butlast ds) (hashFunction opts (last ds) leaf)"
    using ne by (metis append_butlast_last_id foldr_append foldr.simps(1,2) comp_apply id_apply)
  have "j \<le> length ds" by (simp add: j)
  from getNewRootSingleLoop_fold [OF this, of opts "last ds" "hashFunction opts (last ds) leaf" "[int j, int j]"]
  show ?thesis
    by (simp add: getNewRootSingle_def pa k ix rd applyHash_def Let_def tk sn bag_def)
qed

lemma proofArgs_generated:
  assumes "n < 2 ^ 32"
  shows "proofArgs (if c then to32ByteBuffer n # P else []) (if c then 0 else n) (if c then [] else P) = (n, P)"
proof -
  have "(2::nat) ^ 32 \<le> 2 ^ 256" by simp
  with assms have "n < 2 ^ 256" by linarith
  then show ?thesis by (simp add: proofArgs_def count_roundtrip)
qed

lemma old_root_bag:
  assumes "xs \<noteq> []"
  shows "buildTree xs opts ! 1 =
    Some (bag (hashFunction opts) (peaksBelow (hashFunction opts) (Suc (getDepth (length xs))) xs))"
proof -
  have lt: "length xs < 2 ^ Suc (getDepth (length xs))"
    using less_double_power [OF getDepth_bound [of "length xs"]] by simp
  have "length xs \<le> 2 ^ Suc (getDepth (length xs))" using lt by simp
  from root_height [OF this, of "hashFunction opts"] subtreeRoot_bag [OF assms lt, of "hashFunction opts"]
  show ?thesis by (simp only: buildTree_root)
qed

lemma single_root_fold:
  "buildTree (xs @ [a]) opts ! 1 =
    Some (foldr (hashFunction opts) (peaksBelow (hashFunction opts) (Suc (getDepth (length xs))) xs) a)"
proof -
  have lt: "length xs < 2 ^ Suc (getDepth (length xs))"
    using less_double_power [OF getDepth_bound [of "length xs"]] by simp
  then have "length (xs @ [a]) \<le> 2 ^ Suc (getDepth (length xs))" by simp
  from root_height [OF this, of "hashFunction opts"] subtreeRoot_snoc [OF lt, of "hashFunction opts" a]
  show ?thesis by (simp only: buildTree_root)
qed

lemma peaks_count:
  assumes "length xs < 2 ^ 32"
  shows "bitCount32 (length xs) = length (peaksBelow hf (Suc (getDepth (length xs))) xs)"
proof -
  have lt: "length xs < 2 ^ Suc (getDepth (length xs))"
    using less_double_power [OF getDepth_bound [of "length xs"]] by simp
  from peaksBelow_length [OF lt, of hf] assms show ?thesis by (simp add: bitCount32_def)
qed

section \<open>Append proofs: the loop of getNewRootMulti\<close>

lemma js_nth_set: "js_nth (js_set hs i v) j = (if j = i \<and> i < length hs then v else js_nth hs j)"
  by (simp add: js_nth_def js_set_def)

lemma js_nth_Some_length: "js_nth hs j = Some v \<Longrightarrow> j < length hs"
  by (simp add: js_nth_def split: if_splits)

lemma readAt_nat: "n < length ds \<Longrightarrow> readAt ds (int n) = Some (ds ! n)"
  by (simp add: readAt_def)

lemma div_pow_Suc: "(n::nat) div 2 ^ Suc t = n div 2 ^ t div 2"
  using div_mult2_eq [of n "2 ^ t" 2] by (simp add: mult.commute)

lemma level_bounds:
  assumes A: "A \<noteq> []"
  shows "length xs div 2 ^ t \<le> (length xs + length A - 1) div 2 ^ t"
    and "length xs div 2 ^ t * 2 ^ t \<le> length xs"
    and "(length xs + length A - 1) div 2 ^ t * 2 ^ t < length (xs @ A)"
    and "length (xs @ A) \<le> ((length xs + length A - 1) div 2 ^ t + 1) * 2 ^ t"
proof -
  let ?U = "(length xs + length A - 1) div 2 ^ t"
  from A have pos: "0 < length A" by simp
  then have "length xs \<le> length xs + length A - 1" by linarith
  then show "length xs div 2 ^ t \<le> ?U" by (rule div_le_mono)
  show "length xs div 2 ^ t * 2 ^ t \<le> length xs" by simp
  have "?U * 2 ^ t \<le> length xs + length A - 1" by simp
  moreover have la: "length (xs @ A) = length xs + length A" by simp
  ultimately show "?U * 2 ^ t < length (xs @ A)" using pos by linarith
  have "length xs + length A - 1 < ?U * 2 ^ t + 2 ^ t"
    using dividend_less_div_times [of "2 ^ t" "length xs + length A - 1"]
    by (simp add: mult.commute add.commute)
  moreover have "(?U + 1) * 2 ^ t = ?U * 2 ^ t + 2 ^ t" by (simp add: algebra_simps)
  ultimately show "length (xs @ A) \<le> (?U + 1) * 2 ^ t" using la pos by linarith
qed

lemma node_defined:
  assumes "U * 2 ^ t < length ys" "p \<le> U"
  shows "\<exists>v. nodeVal hf ys t p = Some v"
proof -
  from assms(2) have "p * 2 ^ t \<le> U * 2 ^ t" by simp
  with assms(1) have "\<not> length ys \<le> p * 2 ^ t" by linarith
  then have "nodeVal hf ys t p \<noteq> None" by (simp add: nodeVal_None_iff)
  then show ?thesis by auto
qed

lemma odd_half: "odd (q::nat) \<Longrightarrow> 2 * (q div 2) = q - 1 \<and> 2 * (q div 2) + 1 = q \<and> Suc q div 2 - q div 2 = 1 \<and> 1 \<le> q"
  by (auto elim!: oddE)

lemma even_half: "even (i::nat) \<Longrightarrow> 2 * (i div 2) = i"
  by simp

lemma half_step: "(q::nat) \<le> i \<Longrightarrow> Suc (i div 2 - q div 2) = (i + 2) div 2 - q div 2"
proof -
  assume "q \<le> i"
  then have "q div 2 \<le> i div 2" by (rule div_le_mono)
  then show ?thesis by simp
qed

lemma half_le: "(q + r) div 2 - q div 2 \<le> (r::nat)"
proof -
  have "q + r \<le> q + 2 * r" by simp
  then have "(q + r) div 2 \<le> (q + 2 * r) div 2" by (rule div_le_mono)
  then show ?thesis by simp
qed

lemma appendInvI:
  assumes "offset st = length xs div 2 ^ t"
    and "upperBound st = (length xs + length A - 1) div 2 ^ t"
    and "index st = offset st + m_readIndex st"
    and "m_writeIndex st = index st div 2 - offset st div 2"
    and "index st \<le> upperBound st + 1"
    and "m_readIndex st = 0 \<or> even (index st)"
    and "\<forall>j<m_writeIndex st.
        js_nth (appendHashes st) j = nodeVal hf (xs @ A) (Suc t) (offset st div 2 + j)"
    and "\<forall>j. m_readIndex st \<le> j \<and> offset st + j \<le> upperBound st \<longrightarrow>
        js_nth (appendHashes st) j = nodeVal hf (xs @ A) t (offset st + j)"
    and "\<exists>hi. ds = hi @ (if m_readIndex st = 0 then peaksAt hf xs t else peaksAt hf xs (Suc t)) \<and>
           m_decommitmentIndex st = int (length hi) - 1 \<and>
           m_hash st = Some (bag hf (if hi = []
              then (if m_readIndex st = 0 then peaksAt hf xs t else peaksAt hf xs (Suc t))
              else last hi # (if m_readIndex st = 0 then peaksAt hf xs t else peaksAt hf xs (Suc t))))"
  shows "appendInv hf xs A ds t st"
  unfolding appendInv_def using assms by blast

lemma appendInvD:
  assumes "appendInv hf xs A ds t st"
  shows "offset st = length xs div 2 ^ t"
    and "upperBound st = (length xs + length A - 1) div 2 ^ t"
    and "index st = offset st + m_readIndex st"
    and "m_writeIndex st = index st div 2 - offset st div 2"
    and "index st \<le> upperBound st + 1"
    and "m_readIndex st = 0 \<or> even (index st)"
    and "\<forall>j<m_writeIndex st.
        js_nth (appendHashes st) j = nodeVal hf (xs @ A) (Suc t) (offset st div 2 + j)"
    and "\<forall>j. m_readIndex st \<le> j \<and> offset st + j \<le> upperBound st \<longrightarrow>
        js_nth (appendHashes st) j = nodeVal hf (xs @ A) t (offset st + j)"
    and "\<exists>hi. ds = hi @ (if m_readIndex st = 0 then peaksAt hf xs t else peaksAt hf xs (Suc t)) \<and>
           m_decommitmentIndex st = int (length hi) - 1 \<and>
           m_hash st = Some (bag hf (if hi = []
              then (if m_readIndex st = 0 then peaksAt hf xs t else peaksAt hf xs (Suc t))
              else last hi # (if m_readIndex st = 0 then peaksAt hf xs t else peaksAt hf xs (Suc t))))"
  using assms unfolding appendInv_def by blast+

lemma appendInv_stepA:
  assumes inv: "appendInv hf xs A ds t st"
    and A: "A \<noteq> []"
    and sfx: "\<exists>pre. ds = pre @ peaksAt hf xs (Suc t)"
    and hf: "hashFunction opts = hf"
    and c: "m_writeIndex st = 0" "odd (index st)"
  shows "\<exists>st1. multiHash opts ds st = Inr st1 \<and> appendInv hf xs A ds t st1 \<and> even (index st1) \<and>
           upperBound st1 = upperBound st \<and> 0 < m_readIndex st1"
proof -
  define q where "q = offset st"
  define U where "U = upperBound st"
  note d = appendInvD [OF inv]
  have qe: "q = length xs div 2 ^ t" and Ue: "U = (length xs + length A - 1) div 2 ^ t"
    by (simp_all add: q_def U_def d)
  note lb = level_bounds [OF A, of xs t, folded qe Ue]
  from d(6) c(2) have r0: "m_readIndex st = 0" by auto
  with d(3) have ix: "index st = q" by (simp add: q_def)
  with c(2) have oq: "odd q" by simp
  note oh = odd_half [OF oq]
  define b where "b = the (nodeVal hf xs t (q - 1))"
  let ?lo = "peaksAt hf xs t"
  have pk: "peaksAt hf xs (Suc t) = b # ?lo"
    using oq by (simp add: peaksAt_Suc qe b_def)
  from d(9) r0 obtain hi where hi: "ds = hi @ ?lo" "m_decommitmentIndex st = int (length hi) - 1"
    "m_hash st = Some (bag hf (if hi = [] then ?lo else last hi # ?lo))" by auto
  from sfx obtain pre where pre: "ds = pre @ b # ?lo" unfolding pk by blast
  from hi(1) pre have hp: "hi = pre @ [b]" by simp
  have di: "m_decommitmentIndex st = int (length pre)" using hi(2) hp by simp
  have rd: "readAt ds (int (length pre)) = Some b" by (simp add: readAt_def pre)
  have mh: "m_hash st = Some (bag hf (b # ?lo))" using hi(3) hp by simp
  obtain v where v: "nodeVal hf (xs @ A) t q = Some v" using node_defined [OF lb(3) lb(1)] by blast
  have c0: "js_nth (appendHashes st) 0 = Some v"
    using d(8) r0 lb(1) v by (simp add: q_def [symmetric] U_def [symmetric])
  have old: "nodeVal hf (xs @ A) t (q - 1) = Some b"
  proof -
    have e: "(q - 1 + 1) * 2 ^ t = q * 2 ^ t" using oh by simp
    with lb(2) have "(q - 1 + 1) * 2 ^ t \<le> length xs" by simp
    then have o: "nodeVal hf (xs @ A) t (q - 1) = nodeVal hf xs t (q - 1)" by (rule nodeVal_old)
    have "(q - 1) * 2 ^ t < q * 2 ^ t" using oh by simp
    with lb(2) have "\<not> length xs \<le> (q - 1) * 2 ^ t" by linarith
    then have "nodeVal hf xs t (q - 1) \<noteq> None" by (simp add: nodeVal_None_iff)
    with o show ?thesis by (auto simp: b_def)
  qed
  have par: "nodeVal hf (xs @ A) (Suc t) (q div 2) = Some (hf b v)"
    using nodeVal_Suc [of hf "xs @ A" t "q div 2"] oh old v by simp
  have l0: "0 < length (appendHashes st)" using js_nth_Some_length [OF c0] .
  have main: "appendInv hf xs A ds t s1 \<and> even (index s1) \<and> upperBound s1 = upperBound st \<and> 0 < m_readIndex s1"
    if f: "offset s1 = q" "upperBound s1 = U" "index s1 = Suc q" "m_writeIndex s1 = Suc 0"
      "m_readIndex s1 = Suc 0" "appendHashes s1 = js_set (appendHashes st) 0 (Some (hf b v))"
      "m_decommitmentIndex s1 = int (length pre) - 1"
      "m_hash s1 = Some (bag hf (if pre = [] then b # ?lo else last pre # b # ?lo))" for s1
  proof -
    have "appendInv hf xs A ds t s1"
    proof (rule appendInvI)
      show "offset s1 = length xs div 2 ^ t" by (simp add: f qe)
      show "upperBound s1 = (length xs + length A - 1) div 2 ^ t" by (simp add: f Ue)
      show "index s1 = offset s1 + m_readIndex s1" by (simp add: f)
      show "m_writeIndex s1 = index s1 div 2 - offset s1 div 2" using oh by (simp add: f)
      show "index s1 \<le> upperBound s1 + 1" using lb(1) by (simp add: f)
      show "m_readIndex s1 = 0 \<or> even (index s1)" using oq by (simp add: f)
      show "\<forall>j<m_writeIndex s1.
        js_nth (appendHashes s1) j = nodeVal hf (xs @ A) (Suc t) (offset s1 div 2 + j)"
        using par l0 by (simp add: f js_nth_set)
      show "\<forall>j. m_readIndex s1 \<le> j \<and> offset s1 + j \<le> upperBound s1 \<longrightarrow>
        js_nth (appendHashes s1) j = nodeVal hf (xs @ A) t (offset s1 + j)"
        using d(8) r0 by (simp add: f js_nth_set q_def U_def)
      show "\<exists>hi. ds = hi @ (if m_readIndex s1 = 0 then peaksAt hf xs t else peaksAt hf xs (Suc t)) \<and>
           m_decommitmentIndex s1 = int (length hi) - 1 \<and>
           m_hash s1 = Some (bag hf (if hi = []
              then (if m_readIndex s1 = 0 then peaksAt hf xs t else peaksAt hf xs (Suc t))
              else last hi # (if m_readIndex s1 = 0 then peaksAt hf xs t else peaksAt hf xs (Suc t))))"
        by (rule exI [of _ pre]) (simp add: f pk pre)
    qed
    then show ?thesis using oq by (simp add: f U_def)
  qed
  show ?thesis
  proof (cases "pre = []")
    case True
    let ?s1 = "st\<lparr>appendHashes := js_set (appendHashes st) 0 (Some (hf b v)),
                   m_writeIndex := Suc 0, m_readIndex := Suc 0,
                   m_decommitmentIndex := - 1, index := Suc q, m_reads := m_reads st @ [0]\<rparr>"
    have rd0: "readAt ds 0 = Some b" and di0: "m_decommitmentIndex st = 0"
      using rd di True by simp_all
    have "multiHash opts ds st = Inr ?s1"
      using c by (simp add: multiHash_def Let_def di0 rd0 c0 applyHash_def hf r0 ix)
    moreover have "appendInv hf xs A ds t ?s1 \<and> even (index ?s1) \<and> upperBound ?s1 = upperBound st \<and> 0 < m_readIndex ?s1"
      by (rule main) (simp_all add: q_def U_def True mh)
    ultimately show ?thesis by blast
  next
    case False
    then obtain n where n: "length pre = Suc n" by (cases pre) simp_all
    have di1: "m_decommitmentIndex st = int n + 1" using di n by simp
    have rd1: "readAt ds (int n + 1) = Some b" using rd n by (simp add: add.commute)
    have "n < length ds" "ds ! n = last pre"
      using False n by (simp_all add: pre nth_append last_conv_nth)
    then have rd2: "readAt ds (int n) = Some (last pre)" by (simp add: readAt_nat)
    let ?s1 = "st\<lparr>appendHashes := js_set (appendHashes st) 0 (Some (hf b v)),
                   m_writeIndex := Suc 0, m_readIndex := Suc 0,
                   m_decommitmentIndex := int n, index := Suc q,
                   m_hash := Some (hf (last pre) (bag hf (b # ?lo))),
                   m_reads := m_reads st @ [int n + 1, int n]\<rparr>"
    have "multiHash opts ds st = Inr ?s1"
      using c by (simp add: multiHash_def Let_def di1 rd1 rd2 c0 applyHash_def hf r0 ix mh)
    moreover have "appendInv hf xs A ds t ?s1 \<and> even (index ?s1) \<and> upperBound ?s1 = upperBound st \<and> 0 < m_readIndex ?s1"
    proof (rule main)
      show "m_decommitmentIndex ?s1 = int (length pre) - 1" by (simp add: n)
      show "m_hash ?s1 = Some (bag hf (if pre = [] then b # ?lo else last pre # b # ?lo))"
        using False by (simp add: bag_Cons)
    qed (simp_all add: q_def U_def)
    ultimately show ?thesis by blast
  qed
qed

lemma peaksAt_even: "even (length xs div 2 ^ t) \<Longrightarrow> peaksAt hf xs (Suc t) = peaksAt hf xs t"
  by (simp add: peaksAt_Suc)

lemma appendInv_stepB:
  assumes inv: "appendInv hf xs A ds t st"
    and A: "A \<noteq> []"
    and hf: "hashFunction opts = hf"
    and c: "\<not> (m_writeIndex st = 0 \<and> odd (index st))" "index st < upperBound st"
  shows "\<exists>st1. multiHash opts ds st = Inr st1 \<and> appendInv hf xs A ds t st1 \<and> even (index st1) \<and>
           upperBound st1 = upperBound st \<and> 0 < m_readIndex st1"
proof -
  define q where "q = offset st"
  define U where "U = upperBound st"
  define r where "r = m_readIndex st"
  define w where "w = m_writeIndex st"
  note d = appendInvD [OF inv]
  have qe: "q = length xs div 2 ^ t" and Ue: "U = (length xs + length A - 1) div 2 ^ t"
    by (simp_all add: q_def U_def d)
  note lb = level_bounds [OF A, of xs t, folded qe Ue]
  have ix: "index st = q + r" using d(3) by (simp add: q_def r_def)
  have wv: "w = (q + r) div 2 - q div 2" using d(4) ix by (simp add: w_def q_def)
  have ev: "even (q + r)"
  proof (cases "r = 0")
    case True
    with wv have "w = 0" by simp
    with c(1) ix show ?thesis by (simp add: w_def)
  next
    case False
    with d(6) ix show ?thesis by (simp add: r_def)
  qed
  have lt: "q + r < U" using c(2) ix by (simp add: U_def)
  then have b1: "q + r \<le> U" and b2: "q + Suc r \<le> U" by simp_all
  obtain l where l: "nodeVal hf (xs @ A) t (q + r) = Some l" using node_defined [OF lb(3) b1] by blast
  obtain l' where l': "nodeVal hf (xs @ A) t (q + Suc r) = Some l'" using node_defined [OF lb(3) b2] by blast
  have c1: "js_nth (appendHashes st) r = Some l"
    using d(8) b1 l by (simp add: q_def U_def r_def)
  have c2: "js_nth (appendHashes st) (Suc r) = Some l'"
    using d(8) b2 l' by (simp add: q_def U_def r_def)
  have par: "nodeVal hf (xs @ A) (Suc t) ((q + r) div 2) = Some (hf l l')"
    using nodeVal_Suc [of hf "xs @ A" t "(q + r) div 2"] even_half [OF ev] l l' by simp
  have wr: "w \<le> r" unfolding wv by (rule half_le)
  have "r < length (appendHashes st)" using js_nth_Some_length [OF c1] .
  with wr have wl: "w < length (appendHashes st)" by simp
  have qw: "q div 2 + w = (q + r) div 2"
  proof -
    have "q div 2 \<le> (q + r) div 2" by (rule div_le_mono) simp
    then show ?thesis by (simp add: wv)
  qed
  have lo: "(if r = 0 then peaksAt hf xs t else peaksAt hf xs (Suc t)) = peaksAt hf xs (Suc t)"
    using ev peaksAt_even [of xs t hf] by (auto simp: qe)
  let ?s1 = "st\<lparr>appendHashes := js_set (appendHashes st) w (Some (hf l l')),
                 m_writeIndex := Suc w, m_readIndex := Suc (Suc r), index := q + r + 2\<rparr>"
  have mh: "multiHash opts ds st = Inr ?s1"
    using c c1 c2 by (auto simp add: multiHash_def applyHash_def hf r_def [symmetric] w_def [symmetric] ix)
  have "appendInv hf xs A ds t ?s1"
  proof (rule appendInvI)
    show "offset ?s1 = length xs div 2 ^ t" by (simp add: d)
    show "upperBound ?s1 = (length xs + length A - 1) div 2 ^ t" by (simp add: d)
    show "index ?s1 = offset ?s1 + m_readIndex ?s1" by (simp add: q_def)
    show "m_writeIndex ?s1 = index ?s1 div 2 - offset ?s1 div 2"
      using half_step [of q "q + r"] by (simp add: wv q_def [symmetric])
    show "index ?s1 \<le> upperBound ?s1 + 1" using lt by (simp add: U_def)
    show "m_readIndex ?s1 = 0 \<or> even (index ?s1)" using ev by simp
    show "\<forall>j<m_writeIndex ?s1.
        js_nth (appendHashes ?s1) j = nodeVal hf (xs @ A) (Suc t) (offset ?s1 div 2 + j)"
    proof (intro allI impI)
      fix j assume "j < m_writeIndex ?s1"
      then have j: "j < w \<or> j = w" by auto
      then show "js_nth (appendHashes ?s1) j = nodeVal hf (xs @ A) (Suc t) (offset ?s1 div 2 + j)"
      proof
        assume "j < w"
        with d(7) show ?thesis by (simp add: js_nth_set w_def)
      next
        assume "j = w"
        with wl par qw show ?thesis by (simp add: js_nth_set q_def [symmetric])
      qed
    qed
    show "\<forall>j. m_readIndex ?s1 \<le> j \<and> offset ?s1 + j \<le> upperBound ?s1 \<longrightarrow>
        js_nth (appendHashes ?s1) j = nodeVal hf (xs @ A) t (offset ?s1 + j)"
    proof (intro allI impI)
      fix j assume j: "m_readIndex ?s1 \<le> j \<and> offset ?s1 + j \<le> upperBound ?s1"
      then have "j \<noteq> w" "r \<le> j" using wr by auto
      with d(8) j show "js_nth (appendHashes ?s1) j = nodeVal hf (xs @ A) t (offset ?s1 + j)"
        by (simp add: js_nth_set r_def)
    qed
    show "\<exists>hi. ds = hi @ (if m_readIndex ?s1 = 0 then peaksAt hf xs t else peaksAt hf xs (Suc t)) \<and>
           m_decommitmentIndex ?s1 = int (length hi) - 1 \<and>
           m_hash ?s1 = Some (bag hf (if hi = []
              then (if m_readIndex ?s1 = 0 then peaksAt hf xs t else peaksAt hf xs (Suc t))
              else last hi # (if m_readIndex ?s1 = 0 then peaksAt hf xs t else peaksAt hf xs (Suc t))))"
      using d(9) unfolding r_def [symmetric] lo by simp
  qed
  with mh ev show ?thesis by (intro exI [of _ ?s1]) (simp add: U_def)
qed

lemma appendInv_stepC:
  assumes inv: "appendInv hf xs A ds t st"
    and hd: "m_readIndex st = 0 \<or> index st < upperBound st"
    and c: "\<not> (m_writeIndex st = 0 \<and> odd (index st))" "\<not> index st < upperBound st"
  shows "multiHash opts ds st = Inr st \<and> even (index st)"
proof -
  note d = appendInvD [OF inv]
  from hd c(2) have r0: "m_readIndex st = 0" by simp
  with d(3) d(4) have "m_writeIndex st = 0" by simp
  with c(1) have "even (index st)" by simp
  moreover have "multiHash opts ds st = Inr st" using c by (auto simp add: multiHash_def)
  ultimately show ?thesis by simp
qed

lemma appendInv_step:
  assumes inv: "appendInv hf xs A ds t st"
    and hd: "m_readIndex st = 0 \<or> index st < upperBound st"
    and A: "A \<noteq> []"
    and sfx: "\<exists>pre. ds = pre @ peaksAt hf xs (Suc t)"
    and hf: "hashFunction opts = hf"
  shows "\<exists>st1. multiHash opts ds st = Inr st1 \<and> appendInv hf xs A ds t st1 \<and> even (index st1) \<and>
           upperBound st1 = upperBound st \<and> (index st1 < upperBound st1 \<longrightarrow> 0 < m_readIndex st1)"
proof (cases "m_writeIndex st = 0 \<and> odd (index st)")
  case True
  then have a: "m_writeIndex st = 0" "odd (index st)" by simp_all
  from appendInv_stepA [OF inv A sfx hf a] obtain st1 where
    "multiHash opts ds st = Inr st1" "appendInv hf xs A ds t st1" "even (index st1)"
    "upperBound st1 = upperBound st" "0 < m_readIndex st1" by auto
  then show ?thesis by (intro exI [of _ st1]) simp
next
  case False
  show ?thesis
  proof (cases "index st < upperBound st")
    case True
    from appendInv_stepB [OF inv A hf False True] obtain st1 where
      "multiHash opts ds st = Inr st1" "appendInv hf xs A ds t st1" "even (index st1)"
      "upperBound st1 = upperBound st" "0 < m_readIndex st1" by auto
    then show ?thesis by (intro exI [of _ st1]) simp
  next
    case nlt: False
    from appendInv_stepC [OF inv hd False nlt, of opts] inv nlt show ?thesis by auto
  qed
qed

lemma appendInv_level:
  assumes inv: "appendInv hf xs A ds t st"
    and A: "A \<noteq> []"
    and ev: "even (index st)"
    and ge: "upperBound st \<le> index st"
  shows "appendInv hf xs A ds (Suc t) (multiLevel st) \<and> m_readIndex (multiLevel st) = 0"
proof -
  define q where "q = offset st"
  define U where "U = upperBound st"
  define r where "r = m_readIndex st"
  define w where "w = m_writeIndex st"
  note d = appendInvD [OF inv]
  have qe: "q = length xs div 2 ^ t" and Ue: "U = (length xs + length A - 1) div 2 ^ t"
    by (simp_all add: q_def U_def d)
  note lb = level_bounds [OF A, of xs t, folded qe Ue]
  have ix: "index st = q + r" using d(3) by (simp add: q_def r_def)
  have wv: "w = (q + r) div 2 - q div 2" using d(4) ix by (simp add: w_def q_def)
  have iu: "q + r \<le> U + 1" using d(5) ix by (simp add: U_def)
  have ge': "U \<le> q + r" using ge ix by (simp add: U_def)
  have ev': "even (q + r)" using ev ix by simp
  have qU: "q div 2 \<le> U div 2" using lb(1) by (rule div_le_mono)
  define hs' where "hs' = (if q + r = U
      then js_set (appendHashes st) w (js_nth (appendHashes st) r) else appendHashes st)"
  have ml: "multiLevel st = st\<lparr>appendHashes := hs', m_readIndex := 0, m_writeIndex := 0,
      upperBound := U div 2, offset := q div 2, index := q div 2\<rparr>"
    using ge by (simp add: multiLevel_def Let_def hs'_def ix U_def [symmetric] q_def [symmetric]
        r_def [symmetric] w_def [symmetric])
  have cells: "js_nth hs' j = nodeVal hf (xs @ A) (Suc t) (q div 2 + j)" if j: "q div 2 + j \<le> U div 2" for j
  proof (cases "q + r = U")
    case True
    have wU: "w = U div 2 - q div 2" using wv True by simp
    obtain v where v: "nodeVal hf (xs @ A) t U = Some v" using node_defined [OF lb(3), of U hf] by auto
    have cr: "js_nth (appendHashes st) r = Some v"
      using d(8) True v by (simp add: q_def U_def r_def)
    have wr: "w \<le> r" unfolding wv by (rule half_le)
    have "r < length (appendHashes st)" using js_nth_Some_length [OF cr] .
    with wr have wl: "w < length (appendHashes st)" by simp
    have eU: "even U" using ev' True by simp
    have "nodeVal hf (xs @ A) t (U + 1) = None" using lb(4) by (simp add: nodeVal_None_iff)
    then have pr: "nodeVal hf (xs @ A) (Suc t) (U div 2) = Some v"
      using nodeVal_Suc [of hf "xs @ A" t "U div 2"] even_half [OF eU] v by simp
    show ?thesis
    proof (cases "j = w")
      case True
      with wl cr pr qU \<open>q + r = U\<close> show ?thesis by (simp add: hs'_def js_nth_set wU)
    next
      case False
      with j wU qU have "j < w" by linarith
      with d(7) False \<open>q + r = U\<close> show ?thesis by (simp add: hs'_def js_nth_set w_def q_def)
    qed
  next
    case False
    with iu ge' have e: "q + r = U + 1" by simp
    with ev' have "odd U" by simp
    then have "(U + 1) div 2 = U div 2 + 1" by (auto elim!: oddE)
    with wv e have "w = U div 2 + 1 - q div 2" by simp
    with j qU have "j < w" by linarith
    with d(7) False show ?thesis by (simp add: hs'_def w_def q_def)
  qed
  have lo: "(if r = 0 then peaksAt hf xs t else peaksAt hf xs (Suc t)) = peaksAt hf xs (Suc t)"
    using ev' peaksAt_even [of xs t hf] by (auto simp: qe)
  have "appendInv hf xs A ds (Suc t) (multiLevel st)"
    unfolding ml
  proof (rule appendInvI)
    show "offset (st\<lparr>appendHashes := hs', m_readIndex := 0, m_writeIndex := 0,
      upperBound := U div 2, offset := q div 2, index := q div 2\<rparr>) = length xs div 2 ^ Suc t"
      by (simp add: div_pow_Suc qe del: power_Suc)
    show "upperBound (st\<lparr>appendHashes := hs', m_readIndex := 0, m_writeIndex := 0,
      upperBound := U div 2, offset := q div 2, index := q div 2\<rparr>) = (length xs + length A - 1) div 2 ^ Suc t"
      by (simp add: div_pow_Suc Ue del: power_Suc)
    show "\<forall>j. m_readIndex (st\<lparr>appendHashes := hs', m_readIndex := 0, m_writeIndex := 0,
      upperBound := U div 2, offset := q div 2, index := q div 2\<rparr>) \<le> j \<and>
        offset (st\<lparr>appendHashes := hs', m_readIndex := 0, m_writeIndex := 0,
      upperBound := U div 2, offset := q div 2, index := q div 2\<rparr>) + j \<le>
        upperBound (st\<lparr>appendHashes := hs', m_readIndex := 0, m_writeIndex := 0,
      upperBound := U div 2, offset := q div 2, index := q div 2\<rparr>) \<longrightarrow>
        js_nth (appendHashes (st\<lparr>appendHashes := hs', m_readIndex := 0, m_writeIndex := 0,
      upperBound := U div 2, offset := q div 2, index := q div 2\<rparr>)) j =
        nodeVal hf (xs @ A) (Suc t) (offset (st\<lparr>appendHashes := hs', m_readIndex := 0, m_writeIndex := 0,
      upperBound := U div 2, offset := q div 2, index := q div 2\<rparr>) + j)"
      using cells by simp
    show "\<exists>hi. ds = hi @ (if m_readIndex (st\<lparr>appendHashes := hs', m_readIndex := 0, m_writeIndex := 0,
      upperBound := U div 2, offset := q div 2, index := q div 2\<rparr>) = 0
            then peaksAt hf xs (Suc t) else peaksAt hf xs (Suc (Suc t))) \<and>
           m_decommitmentIndex (st\<lparr>appendHashes := hs', m_readIndex := 0, m_writeIndex := 0,
      upperBound := U div 2, offset := q div 2, index := q div 2\<rparr>) = int (length hi) - 1 \<and>
           m_hash (st\<lparr>appendHashes := hs', m_readIndex := 0, m_writeIndex := 0,
      upperBound := U div 2, offset := q div 2, index := q div 2\<rparr>) = Some (bag hf (if hi = []
              then (if m_readIndex (st\<lparr>appendHashes := hs', m_readIndex := 0, m_writeIndex := 0,
      upperBound := U div 2, offset := q div 2, index := q div 2\<rparr>) = 0
                    then peaksAt hf xs (Suc t) else peaksAt hf xs (Suc (Suc t)))
              else last hi # (if m_readIndex (st\<lparr>appendHashes := hs', m_readIndex := 0, m_writeIndex := 0,
      upperBound := U div 2, offset := q div 2, index := q div 2\<rparr>) = 0
                    then peaksAt hf xs (Suc t) else peaksAt hf xs (Suc (Suc t)))))"
      using d(9) unfolding r_def [symmetric] lo by simp
  qed (use qU in simp_all)
  then show ?thesis by (simp add: ml)
qed

lemma getNewRootMultiLoop_inv:
  "A \<noteq> [] \<Longrightarrow> (\<forall>t. \<exists>pre. ds = pre @ peaksAt hf xs t) \<Longrightarrow> hashFunction opts = hf \<Longrightarrow>
   appendInv hf xs A ds t st \<Longrightarrow> m_readIndex st = 0 \<or> index st < upperBound st \<Longrightarrow>
   \<exists>st' t'. getNewRootMultiLoop opts ds st = Inr st' \<and> appendInv hf xs A ds t' st' \<and>
     m_readIndex st' = 0 \<and> upperBound st' = 0"
proof (induction opts ds st arbitrary: t rule: getNewRootMultiLoop.induct)
  case (1 options ds st)
  show ?case
  proof (cases "0 < upperBound st")
    case False
    then have "getNewRootMultiLoop options ds st = Inr st" by (simp add: getNewRootMultiLoop.simps)
    moreover from False "1.prems"(5) have "m_readIndex st = 0" by simp
    ultimately show ?thesis using "1.prems"(4) False by auto
  next
    case True
    from "1.prems"(2) have sfx: "\<exists>pre. ds = pre @ peaksAt hf xs (Suc t)" by blast
    from appendInv_step [OF "1.prems"(4) "1.prems"(5) "1.prems"(1) sfx "1.prems"(3)]
    obtain st1 where s: "multiHash options ds st = Inr st1" "appendInv hf xs A ds t st1"
      "even (index st1)" "upperBound st1 = upperBound st"
      "index st1 < upperBound st1 \<longrightarrow> 0 < m_readIndex st1" by auto
    have "\<exists>t1. appendInv hf xs A ds t1 (multiLevel st1) \<and>
      (m_readIndex (multiLevel st1) = 0 \<or> index (multiLevel st1) < upperBound (multiLevel st1))"
    proof (cases "upperBound st1 \<le> index st1")
      case True
      from appendInv_level [OF s(2) "1.prems"(1) s(3) True] show ?thesis by blast
    next
      case False
      then have "multiLevel st1 = st1" by (simp add: multiLevel_def)
      with s(2) False show ?thesis by auto
    qed
    then obtain t1 where t1: "appendInv hf xs A ds t1 (multiLevel st1)"
      "m_readIndex (multiLevel st1) = 0 \<or> index (multiLevel st1) < upperBound (multiLevel st1)"
      by blast
    from "1.IH" [OF True s(1) "1.prems"(1) "1.prems"(2) "1.prems"(3) t1]
    obtain st' t' where "getNewRootMultiLoop options ds (multiLevel st1) = Inr st'"
      "appendInv hf xs A ds t' st'" "m_readIndex st' = 0" "upperBound st' = 0" by blast
    moreover have "getNewRootMultiLoop options ds st = getNewRootMultiLoop options ds (multiLevel st1)"
      using True s(1) by (simp add: getNewRootMultiLoop.simps [of options ds st])
    ultimately show ?thesis by auto
  qed
qed

lemma getNewRootMulti_result:
  assumes ne: "xs \<noteq> []" and A: "A \<noteq> []"
    and hf: "hashFunction opts = hf"
    and pa: "proofArgs cp e dcs = (length xs, P)"
    and Pne: "P \<noteq> []" and k: "bitCount32 (length xs) = length P"
    and sfx: "\<forall>t. \<exists>pre. P = pre @ peaksAt hf xs t"
    and top: "\<And>t. length xs < 2 ^ t \<Longrightarrow> peaksAt hf xs t = P"
  shows "outcome (getNewRootMulti A cp e dcs opts) =
    Inr \<lparr>elementCount = length xs, root = Some (bag hf P),
         newRoot = subtreeRoot hf (getDepth (length (xs @ A))) (xs @ A)\<rparr>"
proof -
  define n where "n = length P - 1"
  have n: "length P = Suc n" using Pne by (cases P) (simp_all add: n_def)
  have rd: "readAt P (int n) = Some (last P)"
    using Pne n by (simp add: readAt_def last_conv_nth)
  define st0 where "st0 = \<lparr>m_decommitmentIndex = int n, m_hash = Some (last P),
      appendHashes = map Some A, upperBound = length xs + length A - 1,
      m_writeIndex = 0, m_readIndex = 0, offset = length xs, index = length xs,
      m_reads = [int n]\<rparr>"
  have inv0: "appendInv hf xs A P 0 st0"
  proof (rule appendInvI)
    show "\<forall>j. m_readIndex st0 \<le> j \<and> offset st0 + j \<le> upperBound st0 \<longrightarrow>
        js_nth (appendHashes st0) j = nodeVal hf (xs @ A) 0 (offset st0 + j)"
    proof (intro allI impI)
      fix j assume "m_readIndex st0 \<le> j \<and> offset st0 + j \<le> upperBound st0"
      then have "length xs + j \<le> length xs + length A - 1" by (simp add: st0_def)
      moreover have "0 < length A" using A by simp
      ultimately have j: "j < length A" by linarith
      then have "length xs + j < length (xs @ A)" by simp
      from nodeVal_leaf [OF this, of hf] j
      show "js_nth (appendHashes st0) j = nodeVal hf (xs @ A) 0 (offset st0 + j)"
        by (simp add: st0_def js_nth_def)
    qed
    show "\<exists>hi. P = hi @ (if m_readIndex st0 = 0 then peaksAt hf xs 0 else peaksAt hf xs (Suc 0)) \<and>
           m_decommitmentIndex st0 = int (length hi) - 1 \<and>
           m_hash st0 = Some (bag hf (if hi = []
              then (if m_readIndex st0 = 0 then peaksAt hf xs 0 else peaksAt hf xs (Suc 0))
              else last hi # (if m_readIndex st0 = 0 then peaksAt hf xs 0 else peaksAt hf xs (Suc 0))))"
      using Pne n by (intro exI [of _ P]) (simp add: st0_def)
  qed (simp_all add: st0_def)
  from getNewRootMultiLoop_inv [OF A sfx hf inv0] obtain st' t' where
    r: "getNewRootMultiLoop opts P st0 = Inr st'" "appendInv hf xs A P t' st'"
    "m_readIndex st' = 0" "upperBound st' = 0" by (auto simp: st0_def)
  note d = appendInvD [OF r(2)]
  have "0 < length A" using A by simp
  then have "length xs + length A - 1 < 2 ^ t'"
    using d(2) r(4) by (simp add: div_eq_0_iff)
  moreover have "length (xs @ A) = length xs + length A" by simp
  ultimately have M: "length (xs @ A) \<le> 2 ^ t'" and Nt: "length xs < 2 ^ t'"
    using \<open>0 < length A\<close> by linarith+
  have o: "offset st' = 0" using d(1) Nt by simp
  have "js_nth (appendHashes st') 0 = nodeVal hf (xs @ A) t' 0"
    using d(8) r(3) r(4) o by simp
  then have nr: "js_nth (appendHashes st') 0 = subtreeRoot hf (getDepth (length (xs @ A))) (xs @ A)"
    using nodeVal_top [OF M, of hf] root_height [OF M, of hf] by simp
  from d(9) r(3) top [OF Nt] have hr: "m_hash st' = Some (bag hf P)" by auto
  have pos: "length xs + length A \<noteq> 0" using ne by simp
  have "int (length P) - 1 = int n" using n by simp
  then show ?thesis
    using r(1) [unfolded st0_def] nr hr ne rd
    by (simp add: getNewRootMulti_def pa k Let_def)
qed

lemma getNewRootMulti_generated:
  assumes ne: "xs \<noteq> []" and A: "A \<noteq> []" and N: "length xs < 2 ^ 32"
    and hf: "hashFunction opts = hf"
    and pa: "proofArgs cp e dcs = (length xs, peaksBelow hf (Suc (getDepth (length xs))) xs)"
  shows "outcome (getNewRootMulti A cp e dcs opts) =
    Inr \<lparr>elementCount = length xs,
         root = Some (bag hf (peaksBelow hf (Suc (getDepth (length xs))) xs)),
         newRoot = subtreeRoot hf (getDepth (length (xs @ A))) (xs @ A)\<rparr>"
proof -
  have lt: "length xs < 2 ^ Suc (getDepth (length xs))"
    using less_double_power [OF getDepth_bound [of "length xs"]] by simp
  have sfx: "\<forall>t. \<exists>pre. peaksBelow hf (Suc (getDepth (length xs))) xs = pre @ peaksAt hf xs t"
    using peaksAt_suffix [OF lt] by blast
  have top: "peaksAt hf xs t = peaksBelow hf (Suc (getDepth (length xs))) xs" if "length xs < 2 ^ t" for t
    using peaksAt_high [OF that, of hf] peaksBelow_height [OF that lt, of hf] by simp
  from ne A hf pa peaksBelow_nonempty [OF ne lt] peaks_count [OF N] sfx top
  show ?thesis by (rule getNewRootMulti_result)
qed

section \<open>Append consistency\<close>

text \<open>
  Claim C3. For a non-empty sequence of elements and a non-empty list of append leaf images
  (fewer than \<open>2 ^ 32\<close> leaves in all), the append proof generated from the tree, in its
  plain or its compact form, makes \<open>getNewRoot\<close> return the internal root of the tree as
  \<open>root\<close> and, as \<open>newRoot\<close>, the internal root of the tree over the leaf images
  followed by the appended ones: for one appended leaf and for a list of them.
\<close>

theorem append_consistency:
  assumes "elements \<noteq> []" "appendLeafs \<noteq> []"
    and "length elements + length appendLeafs < 2 ^ 32"
  shows "\<exists>p h h1 hm.
    generate_append (treeOf H srt elements) (length elements) (getOptions H srt cmp) = Inr p \<and>
    treeOf H srt elements ! 1 = Some h \<and>
    buildTree (map (leafImage H) elements @ [appendLeaf]) (getOptions H srt False) ! 1 = Some h1 \<and>
    buildTree (map (leafImage H) elements @ appendLeafs) (getOptions H srt False) ! 1 = Some hm \<and>
    outcome (getNewRoot_append (Single appendLeaf) (compactProof p) (elementCount p)
        (decommitments p) (getOptions H srt cmp))
      = Inr \<lparr>elementCount = length elements, root = Some h, newRoot = Some h1\<rparr> \<and>
    outcome (getNewRoot_append (Multi appendLeafs) (compactProof p) (elementCount p)
        (decommitments p) (getOptions H srt cmp))
      = Inr \<lparr>elementCount = length elements, root = Some h, newRoot = Some hm\<rparr>"
proof -
  define xs where "xs = map (leafImage H) elements"
  define o0 where "o0 = getOptions H srt False"
  define od where "od = getOptions H srt cmp"
  define P where "P = peaksBelow (hashFunction o0) (Suc (getDepth (length xs))) xs"
  have ho: "hashFunction od = hashFunction o0" and co: "compact od = cmp"
    by (simp_all add: od_def o0_def getOptions_def)
  have ne: "xs \<noteq> []" using assms(1) by (simp add: xs_def)
  have len: "length xs = length elements" by (simp add: xs_def)
  have N: "length xs < 2 ^ 32" using assms(3) len by simp
  have tr: "treeOf H srt elements = buildTree xs o0" by (simp add: treeOf_def xs_def o0_def)
  define p where "p = (if cmp
     then \<lparr>elementCount = 0, compactProof = to32ByteBuffer (length xs) # P, decommitments = []\<rparr>
     else \<lparr>elementCount = length xs, compactProof = [], decommitments = P\<rparr>)"
  have gen: "generate_append (buildTree xs o0) (length xs) od = Inr p"
    using generate_append_peaks [OF ne, of o0 od, folded P_def] by (simp add: co p_def)
  have pa: "proofArgs (compactProof p) (elementCount p) (decommitments p) = (length xs, P)"
    using proofArgs_generated [OF N, of cmp P] by (cases cmp) (simp_all add: p_def)
  have lt: "length xs < 2 ^ Suc (getDepth (length xs))"
    using less_double_power [OF getDepth_bound [of "length xs"]] by simp
  have Pne: "P \<noteq> []" unfolding P_def using ne lt by (rule peaksBelow_nonempty)
  have k: "bitCount32 (length xs) = length P" unfolding P_def using N by (rule peaks_count)
  have r0: "buildTree xs o0 ! 1 = Some (bag (hashFunction o0) P)"
    using old_root_bag [OF ne, of o0, folded P_def] .
  have r1: "buildTree (xs @ [appendLeaf]) o0 ! 1 = Some (foldr (hashFunction o0) P appendLeaf)"
    using single_root_fold [of xs appendLeaf o0, folded P_def] .
  have "xs @ appendLeafs \<noteq> []" using ne by simp
  then have "subtreeRoot (hashFunction o0) (getDepth (length (xs @ appendLeafs))) (xs @ appendLeafs) \<noteq> None"
    by (simp only: subtreeRoot_None_iff not_False_eq_True)
  then obtain hm where
    hm: "subtreeRoot (hashFunction o0) (getDepth (length (xs @ appendLeafs))) (xs @ appendLeafs) = Some hm"
    by blast
  have rm: "buildTree (xs @ appendLeafs) o0 ! 1 = Some hm" using hm by (simp only: buildTree_root)
  have s: "outcome (getNewRootSingle appendLeaf (compactProof p) (elementCount p) (decommitments p) od)
    = Inr \<lparr>elementCount = length xs, root = Some (bag (hashFunction o0) P),
           newRoot = Some (foldr (hashFunction o0) P appendLeaf)\<rparr>"
    using getNewRootSingle_fold [OF pa Pne k, of appendLeaf od] by (simp only: ho)
  have m: "outcome (getNewRootMulti appendLeafs (compactProof p) (elementCount p) (decommitments p) od)
    = Inr \<lparr>elementCount = length xs, root = Some (bag (hashFunction o0) P), newRoot = Some hm\<rparr>"
    using getNewRootMulti_generated [OF ne assms(2) N ho pa [unfolded P_def], folded P_def] hm
    by simp
  show ?thesis
    unfolding tr xs_def [symmetric] o0_def [symmetric] od_def [symmetric] len [symmetric]
    using gen r0 r1 rm s m by (simp add: getNewRoot_append_def)
qed

theorem append_consistency_witness:
  "[1, 2, 3 :: buffer] \<noteq> [] \<and> [7, 8 :: buffer] \<noteq> [] \<and>
   length [1, 2, 3 :: buffer] + length [7, 8 :: buffer] < (2 :: nat) ^ 32 \<and>
   (\<exists>p h h1 hm.
    generate_append (treeOf (\<lambda>a b. 3 * a + b) False [1, 2, 3]) (length [1, 2, 3 :: buffer]) (getOptions (\<lambda>a b. 3 * a + b) False False) = Inr p \<and>
    treeOf (\<lambda>a b. 3 * a + b) False [1, 2, 3] ! 1 = Some h \<and>
    buildTree (map (leafImage (\<lambda>a b. 3 * a + b)) [1, 2, 3] @ [9]) (getOptions (\<lambda>a b. 3 * a + b) False False) ! 1 = Some h1 \<and>
    buildTree (map (leafImage (\<lambda>a b. 3 * a + b)) [1, 2, 3] @ [7, 8]) (getOptions (\<lambda>a b. 3 * a + b) False False) ! 1 = Some hm \<and>
    outcome (getNewRoot_append (Single 9) (compactProof p) (elementCount p)
        (decommitments p) (getOptions (\<lambda>a b. 3 * a + b) False False))
      = Inr \<lparr>elementCount = length [1, 2, 3 :: buffer], root = Some h, newRoot = Some h1\<rparr> \<and>
    outcome (getNewRoot_append (Multi [7, 8]) (compactProof p) (elementCount p)
        (decommitments p) (getOptions (\<lambda>a b. 3 * a + b) False False))
      = Inr \<lparr>elementCount = length [1, 2, 3 :: buffer], root = Some h, newRoot = Some hm\<rparr>)"
  using append_consistency [of "[1, 2, 3]" "[7, 8]" "\<lambda>a b. 3 * a + b" False False 9] by simp

section \<open>The reads of the append verifiers\<close>

lemma bitCount_pos: "0 < n \<Longrightarrow> 0 < bitCount n"
proof (induction n rule: bitCount.induct)
  case (1 n)
  show ?case
  proof (cases "n mod 2 = 0")
    case True
    with 1(2) have "0 < n div 2" by presburger
    with 1 have "0 < bitCount (n div 2)" by simp
    with 1(2) show ?thesis by (simp add: bitCount.simps [of n])
  next
    case False
    with 1(2) show ?thesis by (simp add: bitCount.simps [of n])
  qed
qed

lemma bitCount32_pos: "1 \<le> n \<Longrightarrow> n < 2 ^ 32 \<Longrightarrow> 1 \<le> bitCount32 n"
  using bitCount_pos [of n] by (simp add: bitCount32_def)

lemma getRootLoop_ok:
  "j \<le> length ds \<Longrightarrow>
   \<exists>h'. getRootLoop opts ds j (Some h) rs =
     \<lparr>reads = rs @ map int (rev [0..<j]), outcome = Inr (Some h')\<rparr>"
proof (induction j arbitrary: h rs)
  case 0
  show ?case by simp
next
  case (Suc j)
  then have "readAt ds (int j) = Some (ds ! j)" by (simp add: readAt_def)
  with Suc.IH [of "hashFunction opts (ds ! j) h" "rs @ [int j]"] Suc.prems
  show ?case by (simp add: applyHash_def)
qed

lemma getNewRootSingleLoop_ok:
  "j \<le> length ds \<Longrightarrow>
   \<exists>h' a'. getNewRootSingleLoop opts ds j (Some h) (Some a) rs =
     \<lparr>reads = rs @ concat (map (\<lambda>i. [int i, int i]) (rev [0..<j])), outcome = Inr (Some h', Some a')\<rparr>"
proof (induction j arbitrary: h a rs)
  case 0
  show ?case by simp
next
  case (Suc j)
  then have "readAt ds (int j) = Some (ds ! j)" by (simp add: readAt_def)
  with Suc.IH [of "hashFunction opts (ds ! j) h" "hashFunction opts (ds ! j) a" "rs @ [int j, int j]"] Suc.prems
  show ?case by (simp add: applyHash_def)
qed

lemma okReads_snoc: "okReads n rs \<Longrightarrow> 0 \<le> i \<Longrightarrow> i < int (bitCount n) \<Longrightarrow> okReads n (rs @ [i])"
  by (auto simp: okReads_def)

lemma bitCount_div: "bitCount (n div 2 ^ t) = (n div 2 ^ t) mod 2 + bitCount (n div 2 ^ Suc t)"
  using bitCount_rec [of "n div 2 ^ t"] by (simp only: div_pow_Suc)

lemma bitCount_div_le: "bitCount (n div 2 ^ t) \<le> bitCount n"
proof (induction t)
  case 0
  show ?case by simp
next
  case (Suc t)
  have "bitCount (n div 2 ^ Suc t) \<le> bitCount (n div 2 ^ t)" using bitCount_div [of n t] by simp
  with Suc show ?case by simp
qed

lemma readsInv_level:
  assumes "offset s1 = n div 2 ^ t" "index s1 = offset s1 + m_readIndex s1"
    and "m_writeIndex s1 = index s1 div 2 - offset s1 div 2" "even (index s1)"
    and "m_readIndex s1 \<noteq> 0 \<or> upperBound s1 \<le> index s1"
    and "m_decommitmentIndex s1 = int (bitCount (n div 2 ^ Suc t)) - 1"
    and "okReads n (m_reads s1)"
  shows "readsInv n t (multiLevel s1) \<or> readsInv n (Suc t) (multiLevel s1)"
proof (cases "upperBound s1 \<le> index s1")
  case True
  have "readsInv n (Suc t) (multiLevel s1)"
    using True assms unfolding readsInv_def multiLevel_def Let_def
    by (simp add: div_pow_Suc del: power_Suc)
  then show ?thesis ..
next
  case False
  then have "multiLevel s1 = s1" by (simp add: multiLevel_def)
  moreover have "readsInv n t s1" using False assms unfolding readsInv_def by simp
  ultimately show ?thesis by simp
qed

lemma readsInv_step:
  assumes inv: "readsInv n t st"
  shows "case multiHash opts ds st of
           Inl (e, rs) \<Rightarrow> okReads n rs
         | Inr s1 \<Rightarrow> readsInv n t (multiLevel s1) \<or> readsInv n (Suc t) (multiLevel s1)"
proof -
  define q where "q = n div 2 ^ t"
  from inv have off: "offset st = q" and ix: "index st = q + m_readIndex st"
    and wv: "m_writeIndex st = (q + m_readIndex st) div 2 - q div 2"
    and hd: "m_readIndex st = 0 \<or> (even (q + m_readIndex st) \<and> q + m_readIndex st < upperBound st)"
    and di: "m_decommitmentIndex st =
       int (bitCount (n div 2 ^ (if m_readIndex st = 0 then t else Suc t))) - 1"
    and ok: "okReads n (m_reads st)"
    unfolding readsInv_def q_def by auto
  have bc: "bitCount q = q mod 2 + bitCount (n div 2 ^ Suc t)"
    unfolding q_def by (rule bitCount_div)
  have le: "bitCount q \<le> bitCount n" unfolding q_def by (rule bitCount_div_le)
  show ?thesis
  proof (cases "m_writeIndex st = 0 \<and> odd (index st)")
    case True
    with hd ix have r0: "m_readIndex st = 0" and oq: "odd q" by auto
    from oq have "q mod 2 = 1" by presburger
    with bc have c: "bitCount q = Suc (bitCount (n div 2 ^ Suc t))" by simp
    define i where "i = int (bitCount (n div 2 ^ Suc t))"
    have di': "m_decommitmentIndex st = i" using di r0 c by (simp add: i_def q_def)
    have rng: "0 \<le> i" "i < int (bitCount n)" using c le by (simp_all add: i_def)
    have ok1: "okReads n (m_reads st @ [i])" using ok rng by (rule okReads_snoc)
    have ok2: "okReads n ((m_reads st @ [i]) @ [i - 1])" if "0 \<le> i - 1"
    proof (rule okReads_snoc [OF ok1 that])
      show "i - 1 < int (bitCount n)" using rng by simp
    qed
    have lv: "readsInv n t (multiLevel s1) \<or> readsInv n (Suc t) (multiLevel s1)"
      if "offset s1 = q" "index s1 = Suc q" "m_readIndex s1 = Suc 0" "m_writeIndex s1 = Suc 0"
        "m_decommitmentIndex s1 = i - 1" "okReads n (m_reads s1)" for s1
      using that oq odd_half [OF oq] by (intro readsInv_level) (simp_all add: q_def i_def)
    show ?thesis
    proof (cases "applyHash opts (readAt ds i) (js_nth (appendHashes st) 0)")
      case (Inl e)
      with True ok1 show ?thesis by (simp add: multiHash_def Let_def di' r0)
    next
      case (Inr a)
      show ?thesis
      proof (cases "0 \<le> i - 1")
        case False
        let ?s1 = "st\<lparr>appendHashes := js_set (appendHashes st) 0 (Some a),
                       m_writeIndex := Suc 0, m_readIndex := Suc 0,
                       m_decommitmentIndex := i - 1, index := Suc q, m_reads := m_reads st @ [i]\<rparr>"
        have "multiHash opts ds st = Inr ?s1"
          using True False Inr by (simp add: multiHash_def Let_def di' r0 ix)
        moreover have "readsInv n t (multiLevel ?s1) \<or> readsInv n (Suc t) (multiLevel ?s1)"
          using ok1 by (intro lv) (simp_all add: off)
        ultimately show ?thesis by simp
      next
        case ge: True
        show ?thesis
        proof (cases "applyHash opts (readAt ds (i - 1)) (m_hash st)")
          case (Inl e)
          with True ge Inr ok2 show ?thesis by (simp add: multiHash_def Let_def di' r0)
        next
          case h: (Inr h)
          let ?s1 = "st\<lparr>appendHashes := js_set (appendHashes st) 0 (Some a),
                       m_writeIndex := Suc 0, m_readIndex := Suc 0,
                       m_decommitmentIndex := i - 1, index := Suc q, m_hash := Some h,
                       m_reads := (m_reads st @ [i]) @ [i - 1]\<rparr>"
          have "multiHash opts ds st = Inr ?s1"
            using True ge Inr h by (simp add: multiHash_def Let_def di' r0 ix)
          moreover have "readsInv n t (multiLevel ?s1) \<or> readsInv n (Suc t) (multiLevel ?s1)"
            using ok2 [OF ge] by (intro lv) (simp_all add: off)
          ultimately show ?thesis by simp
        qed
      qed
    qed
  next
    case nA: False
    have ev: "even (q + m_readIndex st)"
    proof (cases "m_readIndex st = 0")
      case True
      with wv have "m_writeIndex st = 0" by simp
      with nA ix show ?thesis by simp
    next
      case False
      with hd show ?thesis by simp
    qed
    have di': "m_decommitmentIndex st = int (bitCount (n div 2 ^ Suc t)) - 1"
    proof (cases "m_readIndex st = 0")
      case True
      with ev have "q mod 2 = 0" by simp
      with bc di True show ?thesis by (simp add: q_def)
    next
      case False
      with di show ?thesis by simp
    qed
    show ?thesis
    proof (cases "index st < upperBound st")
      case False
      with hd ix have r0: "m_readIndex st = 0" by auto
      have "multiHash opts ds st = Inr st" using nA False by (auto simp add: multiHash_def)
      moreover have "readsInv n t (multiLevel st) \<or> readsInv n (Suc t) (multiLevel st)"
        using False ev ok di' by (intro readsInv_level) (simp_all add: off ix wv q_def)
      ultimately show ?thesis by simp
    next
      case True
      show ?thesis
      proof (cases "applyHash opts (js_nth (appendHashes st) (m_readIndex st))
                (js_nth (appendHashes st) (Suc (m_readIndex st)))")
        case (Inl e)
        with nA True ok show ?thesis by (auto simp add: multiHash_def)
      next
        case (Inr a)
        let ?s1 = "st\<lparr>appendHashes := js_set (appendHashes st) (m_writeIndex st) (Some a),
                     m_writeIndex := Suc (m_writeIndex st),
                     m_readIndex := Suc (Suc (m_readIndex st)),
                     index := index st + 2\<rparr>"
        have "multiHash opts ds st = Inr ?s1"
          using nA True Inr by (auto simp add: multiHash_def)
        moreover have "readsInv n t (multiLevel ?s1) \<or> readsInv n (Suc t) (multiLevel ?s1)"
          using ev ok di' half_step [of q "q + m_readIndex st"]
          by (intro readsInv_level) (simp_all add: off ix wv q_def)
        ultimately show ?thesis by simp
      qed
    qed
  qed
qed

lemma getNewRootMultiLoop_reads:
  "readsInv n t st \<Longrightarrow>
   (case getNewRootMultiLoop opts ds st of
      Inl (e, rs) \<Rightarrow> okReads n rs
    | Inr st' \<Rightarrow> okReads n (m_reads st'))"
proof (induction opts ds st arbitrary: t rule: getNewRootMultiLoop.induct)
  case (1 options ds st)
  show ?case
  proof (cases "0 < upperBound st")
    case False
    then have "getNewRootMultiLoop options ds st = Inr st" by (simp add: getNewRootMultiLoop.simps)
    with "1.prems" show ?thesis by (simp add: readsInv_def)
  next
    case True
    note stp = readsInv_step [OF "1.prems", of options ds]
    show ?thesis
    proof (cases "multiHash options ds st")
      case (Inl er)
      with stp True show ?thesis
        by (cases er) (simp add: getNewRootMultiLoop.simps [of options ds st])
    next
      case (Inr s1)
      with stp obtain t1 where "readsInv n t1 (multiLevel s1)" by auto
      from "1.IH" [OF True Inr this] True Inr show ?thesis
        by (simp add: getNewRootMultiLoop.simps [of options ds st])
    qed
  qed
qed

lemma getNewRootMulti_reads:
  assumes "n < 2 ^ 32"
  shows "okReads n (reads (getNewRootMulti A [] n ds opts))"
proof -
  have k: "bitCount32 n = bitCount n" using assms by (simp add: bitCount32_def)
  let ?st0 = "\<lparr>m_decommitmentIndex = int (bitCount n) - 1, m_hash = readAt ds (int (bitCount n) - 1),
      appendHashes = map Some A, upperBound = n + length A - 1,
      m_writeIndex = 0, m_readIndex = 0, offset = n, index = n,
      m_reads = [int (bitCount n) - 1]\<rparr>"
  have ok0: "okReads n [int (bitCount n) - 1]" by (simp add: okReads_def)
  then have inv0: "readsInv n 0 ?st0" by (simp add: readsInv_def)
  have k0: "bitCount32 0 = bitCount 0" by (simp add: bitCount32_def)
  from getNewRootMultiLoop_reads [OF inv0, of opts ds] ok0 show ?thesis
    by (auto simp add: getNewRootMulti_def proofArgs_def k k0 Let_def split: sum.splits prod.splits)
qed

text \<open>
  Claim C10. Without a compact proof, for an element count from 1 (below \<open>2 ^ 32\<close>) and at
  least \<open>bitCount32 elementCount\<close> decommitments, \<open>getRoot\<close> of the append module reads
  \<open>decommitments\<close> at the indices from \<open>bitCount32 elementCount - 1\<close> down to 0,
  \<open>getNewRoot\<close> for one leaf reads each of them twice, and \<open>getNewRoot\<close> for a list of
  leaves reads first at \<open>bitCount32 elementCount - 1\<close> and then between 0 and that index;
  every read is in range. For the element count 0 the first read of the three is at index
  -1; \<open>getRoot\<close> then returns an \<open>undefined\<close> root without raising, and \<open>getNewRoot\<close>
  for one leaf raises nothing but the TypeError of the hash function applied to
  \<open>undefined\<close>.
\<close>

theorem append_reads_in_bounds:
  "(1 \<le> elemCount \<and> elemCount < 2 ^ 32 \<and> bitCount32 elemCount \<le> length ds \<longrightarrow>
      reads (getRoot_append [] elemCount ds options) = map int (rev [0..<bitCount32 elemCount]) \<and>
      reads (getNewRoot_append (Single leaf) [] elemCount ds options) =
        concat (map (\<lambda>i. [int i, int i]) (rev [0..<bitCount32 elemCount])) \<and>
      (\<exists>rest. reads (getNewRoot_append (Multi leafs) [] elemCount ds options) =
           (int (bitCount32 elemCount) - 1) # rest \<and>
         (\<forall>i\<in>set rest. 0 \<le> i \<and> i < int (bitCount32 elemCount))) \<and>
      (\<forall>i\<in>set (reads (getRoot_append [] elemCount ds options)) \<union>
            set (reads (getNewRoot_append (Single leaf) [] elemCount ds options)) \<union>
            set (reads (getNewRoot_append (Multi leafs) [] elemCount ds options)).
         0 \<le> i \<and> i < int (length ds)))
   \<and> getRoot_append [] 0 ds options = \<lparr>reads = [- 1], outcome = Inr \<lparr>elementCount = 0, root = None\<rparr>\<rparr>
   \<and> getNewRoot_append (Single leaf) [] 0 ds options = \<lparr>reads = [- 1, - 1], outcome = Inl TypeError\<rparr>
   \<and> reads (getNewRoot_append (Multi leafs) [] 0 ds options) = [- 1]"
proof -
  have zero: "bitCount32 0 = 0" by (simp add: bitCount32_def bitCount.simps)
  have z1: "getRoot_append [] 0 ds options = \<lparr>reads = [- 1], outcome = Inr \<lparr>elementCount = 0, root = None\<rparr>\<rparr>"
    by (simp add: getRoot_append_def proofArgs_def zero readAt_def)
  have z2: "getNewRoot_append (Single leaf) [] 0 ds options = \<lparr>reads = [- 1, - 1], outcome = Inl TypeError\<rparr>"
    by (simp add: getNewRoot_append_def getNewRootSingle_def proofArgs_def zero readAt_def applyHash_def Let_def)
  have z3: "reads (getNewRoot_append (Multi leafs) [] 0 ds options) = [- 1]"
  proof -
    have "okReads 0 (reads (getNewRootMulti leafs [] 0 ds options))"
      by (rule getNewRootMulti_reads) simp
    then obtain rest where r: "reads (getNewRootMulti leafs [] 0 ds options) = - 1 # rest"
      "\<forall>i\<in>set rest. 0 \<le> i \<and> i < (0::int)"
      by (auto simp: okReads_def bitCount.simps [of 0])
    have "rest = []" using r(2) by (cases rest) auto
    with r(1) show ?thesis by (simp add: getNewRoot_append_def)
  qed
  have pos: "reads (getRoot_append [] elemCount ds options) = map int (rev [0..<bitCount32 elemCount]) \<and>
      reads (getNewRoot_append (Single leaf) [] elemCount ds options) =
        concat (map (\<lambda>i. [int i, int i]) (rev [0..<bitCount32 elemCount])) \<and>
      (\<exists>rest. reads (getNewRoot_append (Multi leafs) [] elemCount ds options) =
           (int (bitCount32 elemCount) - 1) # rest \<and>
         (\<forall>i\<in>set rest. 0 \<le> i \<and> i < int (bitCount32 elemCount))) \<and>
      (\<forall>i\<in>set (reads (getRoot_append [] elemCount ds options)) \<union>
            set (reads (getNewRoot_append (Single leaf) [] elemCount ds options)) \<union>
            set (reads (getNewRoot_append (Multi leafs) [] elemCount ds options)).
         0 \<le> i \<and> i < int (length ds))"
    if n: "1 \<le> elemCount" "elemCount < 2 ^ 32" and len: "bitCount32 elemCount \<le> length ds"
  proof -
    define k where "k = bitCount32 elemCount - 1"
    from bitCount32_pos [OF n] have k: "bitCount32 elemCount = Suc k" by (simp add: k_def)
    with len have kl: "k < length ds" "k \<le> length ds" by simp_all
    have rd: "readAt ds (int k) = Some (ds ! k)" using kl by (simp add: readAt_def)
    from getRootLoop_ok [OF kl(2), of options "ds ! k" "[int k]"] obtain h' where
      h': "getRootLoop options ds k (Some (ds ! k)) [int k] =
        \<lparr>reads = [int k] @ map int (rev [0..<k]), outcome = Inr (Some h')\<rparr>" by blast
    have r1: "reads (getRoot_append [] elemCount ds options) = map int (rev [0..<Suc k])"
      using h' rd by (simp add: getRoot_append_def proofArgs_def k)
    from getNewRootSingleLoop_ok [OF kl(2), of options "ds ! k" "hashFunction options (ds ! k) leaf" "[int k, int k]"]
    obtain h'' a' where
      a': "getNewRootSingleLoop options ds k (Some (ds ! k)) (Some (hashFunction options (ds ! k) leaf)) [int k, int k] =
        \<lparr>reads = [int k, int k] @ concat (map (\<lambda>i. [int i, int i]) (rev [0..<k])),
         outcome = Inr (Some h'', Some a')\<rparr>" by blast
    have r2: "reads (getNewRoot_append (Single leaf) [] elemCount ds options) =
        concat (map (\<lambda>i. [int i, int i]) (rev [0..<Suc k]))"
      using a' rd by (simp add: getNewRoot_append_def getNewRootSingle_def proofArgs_def k applyHash_def Let_def)
    have "bitCount elemCount = Suc k" using k n(2) by (simp add: bitCount32_def)
    with getNewRootMulti_reads [OF n(2), of leafs ds options] obtain rest where
      r3: "reads (getNewRoot_append (Multi leafs) [] elemCount ds options) = int k # rest"
        "\<forall>i\<in>set rest. 0 \<le> i \<and> i < int (Suc k)"
      by (auto simp: okReads_def getNewRoot_append_def)
    have b12: "\<forall>i\<in>set (map int (rev [0..<Suc k])) \<union> set (concat (map (\<lambda>i. [int i, int i]) (rev [0..<Suc k]))).
        0 \<le> i \<and> i < int (length ds)"
      using kl by auto
    have b3: "\<forall>i\<in>set (int k # rest). 0 \<le> i \<and> i < int (length ds)"
      using r3(2) kl by auto
    have e3: "\<exists>rest'. int k # rest = (int (Suc k) - 1) # rest' \<and>
        (\<forall>i\<in>set rest'. 0 \<le> i \<and> i < int (Suc k))"
      using r3(2) by (intro exI [of _ rest]) simp
    show ?thesis unfolding k r1 r2 r3(1) using b12 b3 e3 by blast
  qed
  from pos z1 z2 z3 show ?thesis by blast
qed

theorem append_reads_in_bounds_witness:
  "1 \<le> (5 :: nat) \<and> (5 :: nat) < 2 ^ 32 \<and> bitCount32 5 \<le> length [7, 8 :: buffer] \<and>
   reads (getRoot_append [] 5 [7, 8] (getOptions (\<lambda>a b. 3 * a + b) False False)) = [1, 0] \<and>
   reads (getNewRoot_append (Single 9) [] 5 [7, 8] (getOptions (\<lambda>a b. 3 * a + b) False False)) = [1, 1, 0, 0] \<and>
   reads (getRoot_append [] 0 [7, 8] (getOptions (\<lambda>a b. 3 * a + b) False False)) = [- 1] \<and>
   reads (getNewRoot_append (Multi [9, 10]) [] 0 [7, 8] (getOptions (\<lambda>a b. 3 * a + b) False False)) = [- 1]"
proof -
  have b: "bitCount32 5 = 2" by (simp add: bitCount32_def bitCount.simps)
  have up: "rev [0..<2] = [1, 0 :: nat]" by (simp add: upt_conv_Cons)
  have h: "1 \<le> (5 :: nat) \<and> (5 :: nat) < 2 ^ 32 \<and> bitCount32 5 \<le> length [7, 8 :: buffer]"
    by (simp add: b)
  from append_reads_in_bounds [of 5 "[7, 8]" "getOptions (\<lambda>a b. 3 * a + b) False False" 9 "[9, 10]"] h
  show ?thesis by (simp add: b up)
qed

end
